theory Spec2Isabelle
  imports Main "HOL-Library.Multiset"
begin

section \<open>The constrained input editor of anagrama-cli\<close>

text \<open>
  The development embeds \<^verbatim>\<open>interactiveInput\<close>, the raw-keystroke editor of the game
  screen, together with \<^verbatim>\<open>isLetterAvailable\<close> and the command registry. The
  function exists in two revisions that differ only in the terminal sequences they
  emit: \<^verbatim>\<open>src/unnamed/part_000\<close> (lines 1315-1552) and
  \<^verbatim>\<open>src/anagrama-cli/src/index.ts\<close> (lines 665-893). The key handler is the
  same text in both, apart from the writes of the Ctrl-C notice.

  Strings are lists of characters. \<^verbatim>\<open>toUpperCase\<close> and \<^verbatim>\<open>toLowerCase\<close> are
  modelled on the ASCII letters and leave every other character alone, which is what
  JavaScript does on the ASCII range only: the model covers ASCII pools and keystrokes,
  and the theorem about the string the editor resolves with says so in its hypotheses.
\<close>

subsection \<open>Strings\<close>

definition toUpperChar :: "char \<Rightarrow> char" where
  "toUpperChar c =
     (case map_of (zip ''abcdefghijklmnopqrstuvwxyz'' ''ABCDEFGHIJKLMNOPQRSTUVWXYZ'') c of
        Some u \<Rightarrow> u
      | None \<Rightarrow> c)"

definition toLowerChar :: "char \<Rightarrow> char" where
  "toLowerChar c =
     (case map_of (zip ''ABCDEFGHIJKLMNOPQRSTUVWXYZ'' ''abcdefghijklmnopqrstuvwxyz'') c of
        Some l \<Rightarrow> l
      | None \<Rightarrow> c)"

definition toUpperCase :: "string \<Rightarrow> string" where
  "toUpperCase str = map toUpperChar str"

definition toLowerCase :: "string \<Rightarrow> string" where
  "toLowerCase str = map toLowerChar str"

text \<open>\<^verbatim>\<open>str.startsWith(p)\<close>.\<close>

definition startsWith :: "string \<Rightarrow> string \<Rightarrow> bool" where
  "startsWith str p = (take (length p) str = p)"

text \<open>The test \<^verbatim>\<open>/^[a-zA-Z]$/.test(char)\<close>: the string is one ASCII letter.\<close>

definition isAsciiLetter :: "char \<Rightarrow> bool" where
  "isAsciiLetter c = (c \<in> set ''abcdefghijklmnopqrstuvwxyzABCDEFGHIJKLMNOPQRSTUVWXYZ'')"

text \<open>The ASCII range, and the letters \<^verbatim>\<open>toLowerCase\<close> changes there.\<close>

definition isAsciiChar :: "char \<Rightarrow> bool" where
  "isAsciiChar c = ((of_char c :: nat) < 128)"

definition isUpperLetter :: "char \<Rightarrow> bool" where
  "isUpperLetter c = (c \<in> set ''ABCDEFGHIJKLMNOPQRSTUVWXYZ'')"

fun isSingleLetter :: "string \<Rightarrow> bool" where
  "isSingleLetter [c] = isAsciiLetter c"
| "isSingleLetter _ = False"

subsection \<open>The command registry\<close>

record command =
  name :: string
  desc :: string

definition COMMANDS :: "command list" where
  "COMMANDS =
     [\<lparr>name = ''/help'', desc = ''Show all commands''\<rparr>,
      \<lparr>name = ''/hint'', desc = ''Get a hint''\<rparr>,
      \<lparr>name = ''/exit'', desc = ''Return to menu''\<rparr>,
      \<lparr>name = ''/quit'', desc = ''Exit the app''\<rparr>,
      \<lparr>name = ''/shuffle'', desc = ''Shuffle the letters''\<rparr>]"

subsection \<open>The pool tracker\<close>

text \<open>
  \<^verbatim>\<open>isLetterAvailable\<close>: the first pool index that is not used and whose letter
  matches case-insensitively, or -1. \<open>scanPool\<close> is its loop, entered at index \<open>i\<close>
  with the rest of the pool. A \<^verbatim>\<open>Set<number>\<close> is the list of its members in
  insertion order, which is the order JavaScript iterates it in.
\<close>

fun scanPool :: "string \<Rightarrow> string list \<Rightarrow> nat list \<Rightarrow> nat \<Rightarrow> int" where
  "scanPool upperLetter [] used i = - 1"
| "scanPool upperLetter (p # ps) used i =
     (if i \<notin> set used \<and> toUpperCase p = upperLetter then int i
      else scanPool upperLetter ps used (Suc i))"

definition isLetterAvailable :: "string \<Rightarrow> string list \<Rightarrow> nat list \<Rightarrow> int" where
  "isLetterAvailable letter pool used = scanPool (toUpperCase letter) pool used 0"

text \<open>\<^verbatim>\<open>usedIndices.add(idx)\<close>.\<close>

definition setAdd :: "nat \<Rightarrow> nat list \<Rightarrow> nat list" where
  "setAdd idx used = (if idx \<in> set used then used else used @ [idx])"

datatype error = TypeError

text \<open>
  The loop of the backspace branch:
  \<^verbatim>\<open>for (const idx of usedIndices) { if (pool[idx].toUpperCase() === upperChar) { usedIndices.delete(idx); break; } }\<close>
  An index outside the pool makes \<^verbatim>\<open>pool[idx]\<close> undefined, and the method call on it
  throws.
\<close>

fun releaseIndex :: "string \<Rightarrow> string list \<Rightarrow> nat list \<Rightarrow> error + nat list" where
  "releaseIndex upperChar pool [] = Inr []"
| "releaseIndex upperChar pool (idx # rest) =
     (if length pool \<le> idx then Inl TypeError
      else if toUpperCase (pool ! idx) = upperChar then Inr rest
      else (case releaseIndex upperChar pool rest of
              Inl e \<Rightarrow> Inl e
            | Inr rest' \<Rightarrow> Inr (idx # rest')))"

subsection \<open>The editor state and the terminal\<close>

text \<open>
  What the editor writes, in order. Each constructor stands for one literal of the
  source: \<open>NewlineClearLine\<close> for \<^verbatim>\<open>"\n\x1b[2K"\<close>, \<open>CursorUp n\<close> for
  \<^verbatim>\<open>"\x1b[nA"\<close>, \<open>CursorDownClearLine\<close> for \<^verbatim>\<open>"\x1b[B\x1b[2K"\<close>,
  \<open>SaveCursor\<close> and \<open>RestoreCursor\<close> for \<^verbatim>\<open>"\x1b[s"\<close> and \<^verbatim>\<open>"\x1b[u"\<close>,
  \<open>MenuEntry selected cmd\<close> for the styled line of one command, \<open>InputLine buf\<close> for
  the two writes of \<^verbatim>\<open>renderInput\<close>, \<open>CtrlCNotice\<close> for the grey notice.
  \<open>OnUpdate buf used\<close> is a call of the \<^verbatim>\<open>onUpdate\<close> callback; \<open>RawModeOff\<close>,
  \<open>RemoveListener\<close> and \<open>ConsoleLog\<close> are the three calls before the promise resolves.
\<close>

datatype out =
    NewlineClearLine
  | CursorUp nat
  | CursorDownClearLine
  | SaveCursor
  | RestoreCursor
  | MenuEntry bool command
  | InputLine string
  | CtrlCNotice
  | OnUpdate string "nat list"
  | RawModeOff
  | RemoveListener
  | ConsoleLog

record editor =
  input :: string
  isCommandMode :: bool
  selectedIndex :: int
  filteredCommands :: "command list"
  menuVisible :: bool
  renderedMenuLines :: nat
  usedIndices :: "nat list"
  ctrlCShown :: bool
  stdout :: "out list"
  resolved :: "(string \<times> bool) option"

datatype revision = Part000 | IndexTs

definition stdoutWrite :: "out list \<Rightarrow> editor \<Rightarrow> editor" where
  "stdoutWrite ts s = s\<lparr>stdout := stdout s @ ts\<rparr>"

definition getFilteredCommands :: "editor \<Rightarrow> command list" where
  "getFilteredCommands s =
     (if \<not> isCommandMode s then []
      else filter (\<lambda>c. startsWith (name c) (input s)) COMMANDS)"

definition renderInput :: "editor \<Rightarrow> editor" where
  "renderInput s = stdoutWrite [InputLine (input s)] s"

definition onUpdate :: "editor \<Rightarrow> editor" where
  "onUpdate s = stdoutWrite [OnUpdate (input s) (usedIndices s)] s"

text \<open>The lines of the menu loop: one line feed with erase and one entry per command.\<close>

fun menuLines :: "command list \<Rightarrow> int \<Rightarrow> nat \<Rightarrow> out list" where
  "menuLines [] sel i = []"
| "menuLines (cmd # cmds) sel i =
     NewlineClearLine # MenuEntry (int i = sel) cmd # menuLines cmds sel (Suc i)"

subsubsection \<open>part\_000\<close>

definition clearBelow :: "nat \<Rightarrow> editor \<Rightarrow> editor" where
  "clearBelow lines s =
     (if lines = 0 then s
      else stdoutWrite (replicate lines NewlineClearLine @ [CursorUp lines]) s)"

definition clearMenu :: "editor \<Rightarrow> editor" where
  "clearMenu s =
     (if renderedMenuLines s = 0 then s
      else (clearBelow (renderedMenuLines s) s)\<lparr>menuVisible := False, renderedMenuLines := 0\<rparr>)"

definition renderMenu :: "editor \<Rightarrow> editor" where
  "renderMenu s =
     (let s1 = s\<lparr>filteredCommands := getFilteredCommands s\<rparr>;
          s2 = clearBelow (renderedMenuLines s1) s1
      in if length (filteredCommands s2) = 0
         then s2\<lparr>menuVisible := False, renderedMenuLines := 0\<rparr>
         else
           let s3 = stdoutWrite (menuLines (filteredCommands s2) (selectedIndex s2) 0) s2;
               s4 = stdoutWrite [CursorUp (length (filteredCommands s3))] s3;
               s5 = renderInput s4
           in s5\<lparr>menuVisible := True, renderedMenuLines := length (filteredCommands s5)\<rparr>)"

subsubsection \<open>index.ts\<close>

definition clearMenu_index :: "editor \<Rightarrow> editor" where
  "clearMenu_index s =
     (if \<not> menuVisible s \<or> renderedMenuLines s = 0 then s
      else
        (stdoutWrite
           ([SaveCursor] @ replicate (renderedMenuLines s) CursorDownClearLine @ [RestoreCursor]) s)
        \<lparr>menuVisible := False, renderedMenuLines := 0\<rparr>)"

definition renderMenu_index :: "editor \<Rightarrow> editor" where
  "renderMenu_index s =
     (let s1 = s\<lparr>filteredCommands := getFilteredCommands s\<rparr>
      in if length (filteredCommands s1) = 0
         then s1\<lparr>menuVisible := False\<rparr>
         else
           (stdoutWrite
              ([SaveCursor] @ menuLines (filteredCommands s1) (selectedIndex s1) 0 @ [RestoreCursor]) s1)
           \<lparr>menuVisible := True, renderedMenuLines := length (filteredCommands s1)\<rparr>)"

fun clearMenuOf :: "revision \<Rightarrow> editor \<Rightarrow> editor" where
  "clearMenuOf Part000 s = clearMenu s"
| "clearMenuOf IndexTs s = clearMenu_index s"

fun renderMenuOf :: "revision \<Rightarrow> editor \<Rightarrow> editor" where
  "renderMenuOf Part000 s = renderMenu s"
| "renderMenuOf IndexTs s = renderMenu_index s"

subsection \<open>The key handler\<close>

definition keyCtrlC :: string where "keyCtrlC = [CHR 0x03]"
definition keyUp :: string where "keyUp = [CHR 0x1B, CHR ''['', CHR ''A'']"
definition keyDown :: string where "keyDown = [CHR 0x1B, CHR ''['', CHR ''B'']"
definition keyTab :: string where "keyTab = [CHR 0x09]"
definition keyReturn :: string where "keyReturn = [CHR 0x0D]"
definition keyNewline :: string where "keyNewline = [CHR 0x0A]"
definition keyDelete :: string where "keyDelete = [CHR 0x7F]"
definition keyBackspace :: string where "keyBackspace = [CHR 0x08]"
definition keyEscape :: string where "keyEscape = [CHR 0x1B]"

text \<open>The Ctrl-C branch, and the reset of its flag that every other key starts with.\<close>

fun showCtrlC :: "revision \<Rightarrow> editor \<Rightarrow> editor" where
  "showCtrlC Part000 s =
     (if \<not> ctrlCShown s
      then (renderInput (stdoutWrite [NewlineClearLine, CtrlCNotice, CursorUp 1] (clearMenu s)))
             \<lparr>ctrlCShown := True\<rparr>
      else s)"
| "showCtrlC IndexTs s =
     (if \<not> ctrlCShown s
      then (stdoutWrite [SaveCursor, NewlineClearLine, CtrlCNotice, RestoreCursor] (clearMenu_index s))
             \<lparr>ctrlCShown := True\<rparr>
      else s)"

fun resetCtrlC :: "revision \<Rightarrow> editor \<Rightarrow> editor" where
  "resetCtrlC Part000 s =
     (if ctrlCShown s
      then (renderInput (stdoutWrite [NewlineClearLine, CursorUp 1] s))\<lparr>ctrlCShown := False\<rparr>
      else s)"
| "resetCtrlC IndexTs s =
     (if ctrlCShown s
      then (stdoutWrite [SaveCursor, NewlineClearLine, RestoreCursor] s)\<lparr>ctrlCShown := False\<rparr>
      else s)"

definition onArrowUp :: "revision \<Rightarrow> editor \<Rightarrow> editor" where
  "onArrowUp rv s =
     (if isCommandMode s \<and> length (filteredCommands s) > 0
      then renderMenuOf rv
             (s\<lparr>selectedIndex :=
                  (if selectedIndex s \<le> 0 then int (length (filteredCommands s)) - 1
                   else selectedIndex s - 1)\<rparr>)
      else s)"

definition onArrowDown :: "revision \<Rightarrow> editor \<Rightarrow> editor" where
  "onArrowDown rv s =
     (if isCommandMode s \<and> length (filteredCommands s) > 0
      then renderMenuOf rv
             (s\<lparr>selectedIndex :=
                  (if selectedIndex s \<ge> int (length (filteredCommands s)) - 1 then 0
                   else selectedIndex s + 1)\<rparr>)
      else s)"

text \<open>The guard shared by Tab and Enter.\<close>

definition hasSelection :: "editor \<Rightarrow> bool" where
  "hasSelection s =
     (isCommandMode s \<and> selectedIndex s \<ge> 0
      \<and> selectedIndex s < int (length (filteredCommands s)))"

definition selectedName :: "editor \<Rightarrow> string" where
  "selectedName s = name (filteredCommands s ! nat (selectedIndex s))"

definition onTab :: "revision \<Rightarrow> editor \<Rightarrow> editor" where
  "onTab rv s =
     (if hasSelection s
      then
        let s1 = clearMenuOf rv s;
            s2 = s1\<lparr>input := selectedName s1\<rparr>;
            s3 = s2\<lparr>selectedIndex := 0\<rparr>
        in renderMenuOf rv (renderInput s3)
      else s)"

definition onEnter :: "revision \<Rightarrow> editor \<Rightarrow> editor" where
  "onEnter rv s =
     (let s1 = (if hasSelection s then s\<lparr>input := selectedName s\<rparr> else s);
          s2 = clearMenuOf rv s1;
          s3 = stdoutWrite [RawModeOff, RemoveListener, ConsoleLog] s2
      in s3\<lparr>resolved := Some (toLowerCase (input s3), isCommandMode s3)\<rparr>)"

definition onBackspace :: "revision \<Rightarrow> string list \<Rightarrow> editor \<Rightarrow> error + editor" where
  "onBackspace rv pool s =
     (if length (input s) > 0
      then
        let s1 = clearMenuOf rv s;
            lastChar = [last (input s1)];
            s2 = s1\<lparr>input := butlast (input s1), selectedIndex := 0\<rparr>;
            wasCommandMode = isCommandMode s2;
            s3 = (if input s2 = [] \<or> \<not> startsWith (input s2) ''/''
                  then s2\<lparr>isCommandMode := False, filteredCommands := []\<rparr>
                  else s2);
            r = (if \<not> wasCommandMode \<and> lastChar \<noteq> ''/''
                 then (case releaseIndex (toUpperCase lastChar) pool (usedIndices s3) of
                         Inl e \<Rightarrow> Inl e
                       | Inr used \<Rightarrow> Inr (onUpdate (s3\<lparr>usedIndices := used\<rparr>)))
                 else Inr s3)
        in (case r of
              Inl e \<Rightarrow> Inl e
            | Inr s4 \<Rightarrow>
                let s5 = renderInput s4
                in Inr (if isCommandMode s5 then renderMenuOf rv s5 else s5))
      else Inr s)"

definition onEscape :: "revision \<Rightarrow> editor \<Rightarrow> editor" where
  "onEscape rv s =
     (let s1 = clearMenuOf rv s;
          s2 = s1\<lparr>input := [], isCommandMode := False, selectedIndex := 0,
                  filteredCommands := [], usedIndices := []\<rparr>
      in renderInput (onUpdate s2))"

definition onChar :: "revision \<Rightarrow> string list \<Rightarrow> string \<Rightarrow> editor \<Rightarrow> editor" where
  "onChar rv pool char s =
     (if char = ''/'' \<and> input s = []
      then renderMenuOf rv
             (renderInput (s\<lparr>isCommandMode := True, input := ''/'', selectedIndex := 0\<rparr>))
      else if isCommandMode s
      then
        let s1 = clearMenuOf rv s;
            s2 = s1\<lparr>input := input s1 @ char, selectedIndex := 0\<rparr>
        in renderMenuOf rv (renderInput s2)
      else if isSingleLetter char
      then
        let idx = isLetterAvailable char pool (usedIndices s)
        in if idx \<noteq> - 1
           then renderInput
                  (onUpdate (s\<lparr>usedIndices := setAdd (nat idx) (usedIndices s),
                              input := input s @ toUpperCase char\<rparr>))
           else s
      else s)"

definition handleKey :: "revision \<Rightarrow> string list \<Rightarrow> string \<Rightarrow> editor \<Rightarrow> error + editor" where
  "handleKey rv pool key s0 =
     (if key = keyCtrlC then Inr (showCtrlC rv s0)
      else
        let s = resetCtrlC rv s0
        in if key = keyUp then Inr (onArrowUp rv s)
           else if key = keyDown then Inr (onArrowDown rv s)
           else if key = keyTab then Inr (onTab rv s)
           else if key = keyReturn \<or> key = keyNewline then Inr (onEnter rv s)
           else if key = keyDelete \<or> key = keyBackspace then onBackspace rv pool s
           else if key = keyEscape \<and> length key = 1 then Inr (onEscape rv s)
           else Inr (onChar rv pool key s))"

subsection \<open>The editing session\<close>

text \<open>
  The state \<^verbatim>\<open>interactiveInput\<close> starts from, after its first \<^verbatim>\<open>renderInput()\<close>.
  \<open>run\<close> hands the keystrokes to the handler one at a time; the Enter branch removes
  the listener, so no key after it is handled.
\<close>

definition initialEditor :: editor where
  "initialEditor =
     renderInput
       \<lparr>input = [], isCommandMode = False, selectedIndex = 0, filteredCommands = [],
        menuVisible = False, renderedMenuLines = 0, usedIndices = [], ctrlCShown = False,
        stdout = [], resolved = None\<rparr>"

fun run :: "revision \<Rightarrow> string list \<Rightarrow> string list \<Rightarrow> editor \<Rightarrow> error + editor" where
  "run rv pool [] s = Inr s"
| "run rv pool (key # keys) s =
     (if resolved s \<noteq> None then Inr s
      else (case handleKey rv pool key s of
              Inl e \<Rightarrow> Inl e
            | Inr s' \<Rightarrow> run rv pool keys s'))"

definition interactiveInput :: "revision \<Rightarrow> string list \<Rightarrow> string list \<Rightarrow> error + editor" where
  "interactiveInput rv pool keys = run rv pool keys initialEditor"

subsection \<open>Invariants of the session\<close>

text \<open>
  \<open>poolInv\<close>: the consumed indices are distinct positions of the pool; in Command
  mode the buffer starts with \<open>/\<close> and nothing is consumed; in Word mode the buffer
  holds letters only, one for each consumed index, each the upper-case letter of its
  pool position, and the menu state is idle.
\<close>

definition poolInv :: "string list \<Rightarrow> editor \<Rightarrow> bool" where
  "poolInv pool s =
     (distinct (usedIndices s) \<and> (\<forall>i \<in> set (usedIndices s). i < length pool)
      \<and> (if isCommandMode s
          then startsWith (input s) ''/'' \<and> usedIndices s = []
          else (\<forall>c \<in> set (input s). isAsciiLetter c)
               \<and> mset (map (\<lambda>i. toUpperCase (pool ! i)) (usedIndices s))
                  = mset (map (\<lambda>c. [c]) (input s))
               \<and> filteredCommands s = [] \<and> selectedIndex s = 0))"

text \<open>
  \<open>menuInv\<close>: until the editor resolves, the stored filtered list is the one the
  buffer gives; it holds registry entries only; the selection index lies inside a
  non-empty list; the recorded line count is 0 or the length of the list, and the
  visibility flag says which.
\<close>

definition menuInv :: "editor \<Rightarrow> bool" where
  "menuInv s =
     ((resolved s = None \<longrightarrow> filteredCommands s = getFilteredCommands s)
      \<and> set (filteredCommands s) \<subseteq> set COMMANDS
      \<and> (filteredCommands s \<noteq> [] \<longrightarrow>
            0 \<le> selectedIndex s \<and> selectedIndex s < int (length (filteredCommands s)))
      \<and> menuVisible s = (renderedMenuLines s \<noteq> 0)
      \<and> (renderedMenuLines s = 0 \<or> renderedMenuLines s = length (filteredCommands s)))"

subsection \<open>The terminal screen\<close>

text \<open>
  \<open>written s s'\<close> are the writes between the states \<open>s\<close> and \<open>s'\<close> of one session.

  The screen is modelled by its rows; columns and line wrapping are left out, so the
  terminal is taken to be wider than every line written. \<open>above\<close> holds the rows from
  the cursor's row up to the top of the screen, the cursor's row first; \<open>below\<close> holds
  the rows under the cursor, from the one next to it down to the last row of the screen.
  \<open>savedRow\<close> is the row number, counted from the top, that \<^verbatim>\<open>ESC[s\<close> stored.
  A row is blank, one menu entry, the input line, the Ctrl-C notice, or other text.
\<close>

definition written :: "editor \<Rightarrow> editor \<Rightarrow> out list" where
  "written s s' = drop (length (stdout s)) (stdout s')"

datatype cell = Blank | Entry bool command | InputRow string | Notice | Other

record screen =
  above :: "cell list"
  below :: "cell list"
  savedRow :: nat

definition screenRows :: "screen \<Rightarrow> cell list" where
  "screenRows scr = rev (above scr) @ below scr"

definition cursorRow :: "screen \<Rightarrow> nat" where
  "cursorRow scr = length (above scr) - 1"

text \<open>
  A line feed moves the cursor down one row; on the last row the screen scrolls: the
  top row is lost and a blank row comes in at the bottom. \<^verbatim>\<open>ESC[2K\<close> and text
  written after it replace the cursor's row. \<^verbatim>\<open>ESC[nA\<close> moves up and stops at the top
  row, \<^verbatim>\<open>ESC[B\<close> moves down and stops at the last row without scrolling.
  \<^verbatim>\<open>ESC[u\<close> goes back to the stored row number, whatever has scrolled since.
\<close>

definition lineFeed :: "screen \<Rightarrow> screen" where
  "lineFeed scr =
     (case below scr of
        b # bs \<Rightarrow> scr\<lparr>above := b # above scr, below := bs\<rparr>
      | [] \<Rightarrow> scr\<lparr>above := Blank # butlast (above scr)\<rparr>)"

definition putRow :: "cell \<Rightarrow> screen \<Rightarrow> screen" where
  "putRow c scr = scr\<lparr>above := c # tl (above scr)\<rparr>"

definition cursorUp :: "nat \<Rightarrow> screen \<Rightarrow> screen" where
  "cursorUp n scr =
     (let k = min n (length (above scr) - 1)
      in scr\<lparr>above := drop k (above scr), below := rev (take k (above scr)) @ below scr\<rparr>)"

definition cursorDown :: "screen \<Rightarrow> screen" where
  "cursorDown scr =
     (case below scr of
        b # bs \<Rightarrow> scr\<lparr>above := b # above scr, below := bs\<rparr>
      | [] \<Rightarrow> scr)"

definition saveCursor :: "screen \<Rightarrow> screen" where
  "saveCursor scr = scr\<lparr>savedRow := cursorRow scr\<rparr>"

definition restoreCursor :: "screen \<Rightarrow> screen" where
  "restoreCursor scr =
     (let r = min (savedRow scr) (length (screenRows scr) - 1)
      in scr\<lparr>above := rev (take (Suc r) (screenRows scr)),
             below := drop (Suc r) (screenRows scr)\<rparr>)"

text \<open>
  What one write does to the screen. \<open>OnUpdate\<close> is the caller's redraw of the whole
  game screen and is not interpreted (\<open>None\<close>); \<open>RawModeOff\<close> and \<open>RemoveListener\<close>
  write nothing.
\<close>

fun playToken :: "out \<Rightarrow> screen \<Rightarrow> screen option" where
  "playToken NewlineClearLine scr = Some (putRow Blank (lineFeed scr))"
| "playToken (CursorUp n) scr = Some (cursorUp n scr)"
| "playToken CursorDownClearLine scr = Some (putRow Blank (cursorDown scr))"
| "playToken SaveCursor scr = Some (saveCursor scr)"
| "playToken RestoreCursor scr = Some (restoreCursor scr)"
| "playToken (MenuEntry selected cmd) scr = Some (putRow (Entry selected cmd) scr)"
| "playToken (InputLine buf) scr = Some (putRow (InputRow buf) scr)"
| "playToken CtrlCNotice scr = Some (putRow Notice scr)"
| "playToken (OnUpdate buf used) scr = None"
| "playToken RawModeOff scr = Some scr"
| "playToken RemoveListener scr = Some scr"
| "playToken ConsoleLog scr = Some (lineFeed scr)"

fun play :: "out list \<Rightarrow> screen \<Rightarrow> screen option" where
  "play [] scr = Some scr"
| "play (t # ts) scr = (case playToken t scr of None \<Rightarrow> None | Some scr' \<Rightarrow> play ts scr')"

fun isEntry :: "cell \<Rightarrow> bool" where
  "isEntry (Entry selected cmd) = True"
| "isEntry _ = False"

definition entryRows :: "screen \<Rightarrow> nat" where
  "entryRows scr = length (filter isEntry (screenRows scr))"

text \<open>The rows \<^verbatim>\<open>renderMenu\<close> draws for a list of commands, the selected one highlighted.\<close>

fun entryCells :: "command list \<Rightarrow> int \<Rightarrow> nat \<Rightarrow> cell list" where
  "entryCells [] sel i = []"
| "entryCells (cmd # cmds) sel i = Entry (int i = sel) cmd # entryCells cmds sel (Suc i)"

text \<open>
  \<open>menuShown n scr\<close>: the menu entries on the screen are exactly the \<open>n\<close> rows under
  the cursor.
\<close>

definition menuShown :: "nat \<Rightarrow> screen \<Rightarrow> bool" where
  "menuShown n scr =
     (above scr \<noteq> [] \<and> n \<le> length (below scr)
      \<and> list_all (\<lambda>c. \<not> isEntry c) (above scr)
      \<and> list_all isEntry (take n (below scr))
      \<and> list_all (\<lambda>c. \<not> isEntry c) (drop n (below scr)))"

text \<open>
  A terminal of 24 rows with the input line on the row before the last, as it is once
  the game screen has filled the terminal.
\<close>

definition screen24 :: screen where
  "screen24 = \<lparr>above = InputRow [] # replicate 22 Other, below = [Blank], savedRow = 0\<rparr>"

subsection \<open>Frame facts of the output operations\<close>

lemma stdoutWrite_fields [simp]:
  "input (stdoutWrite ts s) = input s"
  "isCommandMode (stdoutWrite ts s) = isCommandMode s"
  "selectedIndex (stdoutWrite ts s) = selectedIndex s"
  "filteredCommands (stdoutWrite ts s) = filteredCommands s"
  "menuVisible (stdoutWrite ts s) = menuVisible s"
  "renderedMenuLines (stdoutWrite ts s) = renderedMenuLines s"
  "usedIndices (stdoutWrite ts s) = usedIndices s"
  "ctrlCShown (stdoutWrite ts s) = ctrlCShown s"
  "resolved (stdoutWrite ts s) = resolved s"
  "stdout (stdoutWrite ts s) = stdout s @ ts"
  by (simp_all add: stdoutWrite_def)

lemma renderInput_fields [simp]:
  "input (renderInput s) = input s"
  "isCommandMode (renderInput s) = isCommandMode s"
  "selectedIndex (renderInput s) = selectedIndex s"
  "filteredCommands (renderInput s) = filteredCommands s"
  "menuVisible (renderInput s) = menuVisible s"
  "renderedMenuLines (renderInput s) = renderedMenuLines s"
  "usedIndices (renderInput s) = usedIndices s"
  "ctrlCShown (renderInput s) = ctrlCShown s"
  "resolved (renderInput s) = resolved s"
  "stdout (renderInput s) = stdout s @ [InputLine (input s)]"
  by (simp_all add: renderInput_def)

lemma onUpdate_fields [simp]:
  "input (onUpdate s) = input s"
  "isCommandMode (onUpdate s) = isCommandMode s"
  "selectedIndex (onUpdate s) = selectedIndex s"
  "filteredCommands (onUpdate s) = filteredCommands s"
  "menuVisible (onUpdate s) = menuVisible s"
  "renderedMenuLines (onUpdate s) = renderedMenuLines s"
  "usedIndices (onUpdate s) = usedIndices s"
  "ctrlCShown (onUpdate s) = ctrlCShown s"
  "resolved (onUpdate s) = resolved s"
  by (simp_all add: onUpdate_def)

lemma clearMenuOf_fields [simp]:
  "input (clearMenuOf rv s) = input s
   \<and> isCommandMode (clearMenuOf rv s) = isCommandMode s
   \<and> selectedIndex (clearMenuOf rv s) = selectedIndex s
   \<and> filteredCommands (clearMenuOf rv s) = filteredCommands s
   \<and> usedIndices (clearMenuOf rv s) = usedIndices s
   \<and> ctrlCShown (clearMenuOf rv s) = ctrlCShown s
   \<and> resolved (clearMenuOf rv s) = resolved s"
  by (cases rv) (simp_all add: clearMenu_def clearMenu_index_def clearBelow_def)

lemma getFilteredCommands_cong:
  "isCommandMode s' = isCommandMode s \<Longrightarrow> input s' = input s
   \<Longrightarrow> getFilteredCommands s' = getFilteredCommands s"
  by (simp add: getFilteredCommands_def)

lemma renderMenuOf_fields [simp]:
  "input (renderMenuOf rv s) = input s
   \<and> isCommandMode (renderMenuOf rv s) = isCommandMode s
   \<and> selectedIndex (renderMenuOf rv s) = selectedIndex s
   \<and> filteredCommands (renderMenuOf rv s) = getFilteredCommands s
   \<and> usedIndices (renderMenuOf rv s) = usedIndices s
   \<and> ctrlCShown (renderMenuOf rv s) = ctrlCShown s
   \<and> resolved (renderMenuOf rv s) = resolved s"
  by (cases rv) (simp_all add: renderMenu_def renderMenu_index_def clearBelow_def Let_def)

lemma resetCtrlC_fields [simp]:
  "input (resetCtrlC rv s) = input s
   \<and> isCommandMode (resetCtrlC rv s) = isCommandMode s
   \<and> selectedIndex (resetCtrlC rv s) = selectedIndex s
   \<and> filteredCommands (resetCtrlC rv s) = filteredCommands s
   \<and> menuVisible (resetCtrlC rv s) = menuVisible s
   \<and> renderedMenuLines (resetCtrlC rv s) = renderedMenuLines s
   \<and> usedIndices (resetCtrlC rv s) = usedIndices s
   \<and> ctrlCShown (resetCtrlC rv s) = False
   \<and> resolved (resetCtrlC rv s) = resolved s"
  by (cases rv) simp_all

lemma showCtrlC_fields [simp]:
  "input (showCtrlC rv s) = input s
   \<and> isCommandMode (showCtrlC rv s) = isCommandMode s
   \<and> selectedIndex (showCtrlC rv s) = selectedIndex s
   \<and> filteredCommands (showCtrlC rv s) = filteredCommands s
   \<and> usedIndices (showCtrlC rv s) = usedIndices s
   \<and> resolved (showCtrlC rv s) = resolved s"
  by (cases rv) (simp_all add: clearMenu_def clearMenu_index_def clearBelow_def)

subsection \<open>Auxiliary facts\<close>

lemmas keys = keyCtrlC_def keyUp_def keyDown_def keyTab_def keyReturn_def keyNewline_def
  keyDelete_def keyBackspace_def keyEscape_def

section \<open>Single keys and small scenarios\<close>

text \<open>
  C3. With the pool A, A, B: typing A, A consumes both A indices (0 and 1); one
  backspace frees exactly one of them (index 0, the first in insertion order), so the
  next A is accepted and consumes index 0 again; a further A changes neither the
  buffer nor the consumed set. Both revisions.
\<close>

theorem duplicate_letter_release:
  "map_sum id (\<lambda>s. (input s, usedIndices s))
     (interactiveInput rv [''A'', ''A'', ''B''] [''A'', ''A'']) = Inr (''AA'', [0, 1])
   \<and> map_sum id (\<lambda>s. (input s, usedIndices s))
     (interactiveInput rv [''A'', ''A'', ''B''] [''A'', ''A'', keyDelete]) = Inr (''A'', [1])
   \<and> map_sum id (\<lambda>s. (input s, usedIndices s))
     (interactiveInput rv [''A'', ''A'', ''B''] [''A'', ''A'', keyDelete, ''A''])
       = Inr (''AA'', [1, 0])
   \<and> map_sum id (\<lambda>s. (input s, usedIndices s))
     (interactiveInput rv [''A'', ''A'', ''B''] [''A'', ''A'', keyDelete, ''A'', ''A''])
       = Inr (''AA'', [1, 0])"
proof (cases rv)
  case Part000
  show ?thesis unfolding Part000 by code_simp
next
  case IndexTs
  show ?thesis unfolding IndexTs by code_simp
qed

theorem duplicate_letter_release_witness:
  "map_sum id (\<lambda>s. (input s, usedIndices s))
     (interactiveInput Part000 [''A'', ''A'', ''B''] [''A'', ''A'', keyDelete]) = Inr (''A'', [1])"
  using duplicate_letter_release [of Part000] by simp

text \<open>
  C7. Escape, in any state of the editor, empties the buffer and the consumed set,
  puts the selection index at 0, and leaves the editor in Word mode (the filtered
  list is emptied too). No exception is raised.
\<close>

theorem escape_resets_editor:
  "\<exists>s'. handleKey rv pool keyEscape s = Inr s' \<and> input s' = [] \<and> usedIndices s' = []
        \<and> selectedIndex s' = 0 \<and> isCommandMode s' = False \<and> filteredCommands s' = []"
  by (simp add: handleKey_def keys onEscape_def Let_def)

theorem escape_resets_editor_witness:
  "\<exists>s'. handleKey IndexTs [''C'', ''A'', ''T''] keyEscape
          (projr (interactiveInput IndexTs [''C'', ''A'', ''T''] [''/'', ''h''])) = Inr s'
        \<and> input s' = [] \<and> usedIndices s' = []
        \<and> selectedIndex s' = 0 \<and> isCommandMode s' = False \<and> filteredCommands s' = []"
  using escape_resets_editor
    [of IndexTs "[''C'', ''A'', ''T'']" "projr (interactiveInput IndexTs [''C'', ''A'', ''T''] [''/'', ''h''])"]
  by simp

lemma scanPool_none:
  "(\<And>j. j < length ps \<Longrightarrow> i + j \<in> set used \<or> toUpperCase (ps ! j) \<noteq> up)
   \<Longrightarrow> scanPool up ps used i = - 1"
proof (induction ps arbitrary: i)
  case Nil
  show ?case by simp
next
  case (Cons p ps)
  have "i \<in> set used \<or> toUpperCase p \<noteq> up" using Cons.prems [of 0] by simp
  moreover have "scanPool up ps used (Suc i) = - 1"
  proof (rule Cons.IH)
    fix j assume "j < length ps"
    then show "Suc i + j \<in> set used \<or> toUpperCase (ps ! j) \<noteq> up"
      using Cons.prems [of "Suc j"] by simp
  qed
  ultimately show ?case by auto
qed

lemma letter_not_special:
  "isAsciiLetter c \<Longrightarrow>
     c \<noteq> CHR 0x03 \<and> c \<noteq> CHR 0x09 \<and> c \<noteq> CHR 0x0D \<and> c \<noteq> CHR 0x0A \<and> c \<noteq> CHR 0x7F
     \<and> c \<noteq> CHR 0x08 \<and> c \<noteq> CHR 0x1B \<and> c \<noteq> CHR ''/''"
  by (auto simp: isAsciiLetter_def)

text \<open>
  C5. In Word mode, a letter key none of whose case-insensitive matches in the pool
  is unconsumed changes nothing: the handler returns normally, and buffer, consumed
  set, mode and selection index are the ones before. The only effect the key can have
  is the one every key has, taking down a Ctrl-C notice that is showing; without a
  notice the state is returned as it was.
\<close>

theorem unavailable_letter_ignored:
  assumes "\<not> isCommandMode s" and "isAsciiLetter c"
    and "\<forall>i<length pool. i \<in> set (usedIndices s) \<or> toUpperCase (pool ! i) \<noteq> toUpperCase [c]"
  shows "handleKey rv pool [c] s = Inr (resetCtrlC rv s)
         \<and> input (resetCtrlC rv s) = input s \<and> usedIndices (resetCtrlC rv s) = usedIndices s
         \<and> isCommandMode (resetCtrlC rv s) = isCommandMode s
         \<and> selectedIndex (resetCtrlC rv s) = selectedIndex s
         \<and> (\<not> ctrlCShown s \<longrightarrow> resetCtrlC rv s = s)"
proof -
  have "isLetterAvailable [c] pool (usedIndices s) = - 1"
    unfolding isLetterAvailable_def using assms(3) by (intro scanPool_none) simp
  moreover have "resetCtrlC rv s = s" if "\<not> ctrlCShown s" using that by (cases rv) simp_all
  ultimately show ?thesis
    using assms(1,2) letter_not_special [OF assms(2)]
    by (simp add: handleKey_def keys onChar_def Let_def)
qed


theorem unavailable_letter_ignored_witness:
  "handleKey Part000 [''C'', ''A'', ''R'', ''T'', ''E''] ''Z'' initialEditor = Inr initialEditor"
proof -
  have a: "\<not> isCommandMode initialEditor" by (simp add: initialEditor_def)
  have b: "isAsciiLetter (CHR ''Z'')" by (simp add: isAsciiLetter_def)
  have c: "\<forall>i<length [''C'', ''A'', ''R'', ''T'', ''E''].
             i \<in> set (usedIndices initialEditor)
             \<or> toUpperCase ([''C'', ''A'', ''R'', ''T'', ''E''] ! i) \<noteq> toUpperCase [CHR ''Z'']"
    by (simp add: initialEditor_def nth_Cons' toUpperCase_def toUpperChar_def)
  have d: "\<not> ctrlCShown initialEditor" by (simp add: initialEditor_def)
  show ?thesis using unavailable_letter_ignored [OF a b c, of Part000] d by simp
qed

lemma resetCtrlC_idle: "\<not> ctrlCShown s \<Longrightarrow> resetCtrlC rv s = s"
  by (cases rv) simp_all

lemma run_snoc:
  "run rv pool (keys @ [key]) s =
     (case run rv pool keys s of Inl e \<Rightarrow> Inl e | Inr s' \<Rightarrow> run rv pool [key] s')"
  by (induction keys arbitrary: s) (simp_all split: sum.splits)

lemma hasSelection_resetCtrlC [simp]: "hasSelection (resetCtrlC rv s) = hasSelection s"
  by (simp add: hasSelection_def)

lemma selectedName_resetCtrlC [simp]: "selectedName (resetCtrlC rv s) = selectedName s"
  by (simp add: selectedName_def)

lemma onEnter_result:
  "input (onEnter rv s) = (if hasSelection s then selectedName s else input s)
   \<and> resolved (onEnter rv s) = Some (toLowerCase (input (onEnter rv s)), isCommandMode s)"
  by (simp add: onEnter_def Let_def)

text \<open>
  C2, as stated, fails: with the pool C, A, T the keys C, A, T, Enter leave the buffer
  \<open>CAT\<close> and the editor resolves with \<open>cat\<close>.
\<close>

theorem resolves_literal_buffer_counterexample:
  "\<not> isl (interactiveInput Part000 [''C'', ''A'', ''T''] [''C'', ''A'', ''T'', keyReturn])
   \<and> input (projr (interactiveInput Part000 [''C'', ''A'', ''T''] [''C'', ''A'', ''T'', keyReturn]))
       = ''CAT''
   \<and> resolved (projr (interactiveInput Part000 [''C'', ''A'', ''T''] [''C'', ''A'', ''T'', keyReturn]))
       = Some (''cat'', False)
   \<and> map_option fst
        (resolved (projr (interactiveInput Part000 [''C'', ''A'', ''T''] [''C'', ''A'', ''T'', keyReturn])))
       \<noteq> Some (input (projr (interactiveInput Part000 [''C'', ''A'', ''T''] [''C'', ''A'', ''T'', keyReturn])))"
  by code_simp

text \<open>
  C8. In Command mode with the selection index inside the filtered list, Tab replaces
  the buffer with the name of the filtered entry at the selection index. Typing
  \<open>/\<close> and \<open>h\<close> from the start gives the buffer \<open>/h\<close>, the filtered list
  \<open>/help\<close>, \<open>/hint\<close> and the selection index 0, and Tab then makes the buffer
  exactly \<open>/help\<close>.
\<close>

theorem tab_completes_selection:
  "(hasSelection s \<longrightarrow>
      (\<exists>s'. handleKey rv pool keyTab s = Inr s' \<and> input s' = selectedName s \<and> isCommandMode s'))
   \<and> (\<exists>s1. interactiveInput rv pool [''/'', ''h''] = Inr s1
         \<and> input s1 = ''/h'' \<and> isCommandMode s1 \<and> selectedIndex s1 = 0
         \<and> map name (filteredCommands s1) = [''/help'', ''/hint'']
         \<and> (\<exists>s2. handleKey rv pool keyTab s1 = Inr s2 \<and> input s2 = ''/help''))
   \<and> (\<exists>s3. interactiveInput rv pool [''/'', ''h'', keyTab] = Inr s3 \<and> input s3 = ''/help'')"
proof (intro conjI impI)
  assume "hasSelection s"
  then show "\<exists>s'. handleKey rv pool keyTab s = Inr s' \<and> input s' = selectedName s \<and> isCommandMode s'"
    by (simp add: handleKey_def keys onTab_def Let_def selectedName_def hasSelection_def)
next
  show "\<exists>s1. interactiveInput rv pool [''/'', ''h''] = Inr s1
         \<and> input s1 = ''/h'' \<and> isCommandMode s1 \<and> selectedIndex s1 = 0
         \<and> map name (filteredCommands s1) = [''/help'', ''/hint'']
         \<and> (\<exists>s2. handleKey rv pool keyTab s1 = Inr s2 \<and> input s2 = ''/help'')"
    by (simp add: interactiveInput_def initialEditor_def handleKey_def keys onChar_def onTab_def
        Let_def selectedName_def hasSelection_def resetCtrlC_idle getFilteredCommands_def
        COMMANDS_def startsWith_def)
next
  show "\<exists>s3. interactiveInput rv pool [''/'', ''h'', keyTab] = Inr s3 \<and> input s3 = ''/help''"
    by (simp add: interactiveInput_def initialEditor_def handleKey_def keys onChar_def onTab_def
        Let_def selectedName_def hasSelection_def resetCtrlC_idle getFilteredCommands_def
        COMMANDS_def startsWith_def)
qed

theorem tab_completes_selection_witness:
  "\<exists>s'. handleKey Part000 [] keyTab (projr (interactiveInput Part000 [] [''/'', ''q''])) = Inr s'
        \<and> input s' = ''/quit''"
proof -
  let ?s = "projr (interactiveInput Part000 [] [''/'', ''q''])"
  have a: "hasSelection ?s" "selectedName ?s = ''/quit''" by code_simp+
  show ?thesis using tab_completes_selection [of ?s Part000 "[]"] a by auto
qed

section \<open>Mode transitions\<close>

lemma onArrow_mode [simp]:
  "isCommandMode (onArrowUp rv s) = isCommandMode s
   \<and> isCommandMode (onArrowDown rv s) = isCommandMode s
   \<and> input (onArrowUp rv s) = input s \<and> input (onArrowDown rv s) = input s
   \<and> usedIndices (onArrowUp rv s) = usedIndices s
   \<and> usedIndices (onArrowDown rv s) = usedIndices s
   \<and> resolved (onArrowUp rv s) = resolved s
   \<and> resolved (onArrowDown rv s) = resolved s"
  by (simp add: onArrowUp_def onArrowDown_def)

lemma onTab_mode [simp]:
  "isCommandMode (onTab rv s) = isCommandMode s \<and> usedIndices (onTab rv s) = usedIndices s
   \<and> resolved (onTab rv s) = resolved s"
  by (simp add: onTab_def Let_def)

lemma onEnter_mode [simp]:
  "isCommandMode (onEnter rv s) = isCommandMode s \<and> usedIndices (onEnter rv s) = usedIndices s"
  by (simp add: onEnter_def Let_def)

lemma onEscape_fields [simp]:
  "isCommandMode (onEscape rv s) = False \<and> input (onEscape rv s) = []
   \<and> usedIndices (onEscape rv s) = [] \<and> selectedIndex (onEscape rv s) = 0
   \<and> filteredCommands (onEscape rv s) = [] \<and> resolved (onEscape rv s) = resolved s"
  by (simp add: onEscape_def Let_def)

lemma onChar_mode:
  "isCommandMode (onChar rv pool char s) = (isCommandMode s \<or> (char = ''/'' \<and> input s = []))"
  by (simp add: onChar_def Let_def)

lemma onBackspace_word_mode:
  "\<not> isCommandMode s \<Longrightarrow> onBackspace rv pool s = Inr s1 \<Longrightarrow> \<not> isCommandMode s1"
  by (auto simp: onBackspace_def Let_def split: if_splits sum.splits)

lemma keys_distinct:
  "distinct [keyCtrlC, keyUp, keyDown, keyTab, keyReturn, keyNewline, keyDelete, keyBackspace,
     keyEscape, ''/'']"
  by (simp add: keys)

lemma keyEscape_length: "length keyEscape = 1"
  by (simp add: keys)

lemma handleKey_cases [consumes 1, case_names CtrlC Up Down Tab Enter Backspace Escape Char]:
  assumes "handleKey rv pool key s = r"
  obtains "key = keyCtrlC" "r = Inr (showCtrlC rv s)"
    | "key = keyUp" "r = Inr (onArrowUp rv (resetCtrlC rv s))"
    | "key = keyDown" "r = Inr (onArrowDown rv (resetCtrlC rv s))"
    | "key = keyTab" "r = Inr (onTab rv (resetCtrlC rv s))"
    | "key = keyReturn \<or> key = keyNewline" "r = Inr (onEnter rv (resetCtrlC rv s))"
    | "key = keyDelete \<or> key = keyBackspace" "r = onBackspace rv pool (resetCtrlC rv s)"
    | "key = keyEscape" "r = Inr (onEscape rv (resetCtrlC rv s))"
    | "key \<notin> {keyCtrlC, keyUp, keyDown, keyTab, keyReturn, keyNewline, keyDelete, keyBackspace,
         keyEscape}"
      "r = Inr (onChar rv pool key (resetCtrlC rv s))"
  using assms keys_distinct keyEscape_length
  by (auto simp: handleKey_def Let_def split: if_splits)

lemma slash_mid_word_ignored:
  assumes "\<not> isCommandMode s" and "input s \<noteq> []"
  shows "handleKey rv pool ''/'' s = Inr (resetCtrlC rv s)"
  using assms by (simp add: handleKey_def keys onChar_def Let_def isAsciiLetter_def)

lemma word_mode_stays_word:
  assumes "\<not> isCommandMode s" and "handleKey rv pool key s = Inr s1"
  shows "isCommandMode s1 = (key = ''/'' \<and> input s = [])"
  using assms(2)
proof (cases rule: handleKey_cases)
  case Backspace
  then have "\<not> isCommandMode s1"
    using onBackspace_word_mode [of "resetCtrlC rv s" rv pool s1] assms(1) by simp
  then show ?thesis using Backspace(1) keys_distinct by auto
next
  case Char
  then show ?thesis using assms(1) by (auto simp: onChar_mode)
qed (use assms(1) keys_distinct in auto)

lemma command_backspace:
  assumes "isCommandMode s" and "input s \<noteq> []" and "key = keyDelete \<or> key = keyBackspace"
  shows "\<exists>s3. handleKey rv pool key s = Inr s3 \<and> input s3 = butlast (input s)
           \<and> (\<not> isCommandMode s3) = (input s3 = [] \<or> \<not> startsWith (input s3) ''/'')"
proof -
  have "handleKey rv pool key s = onBackspace rv pool (resetCtrlC rv s)"
    using assms(3) keys_distinct by (auto simp: handleKey_def Let_def)
  moreover have "\<exists>s3. onBackspace rv pool (resetCtrlC rv s) = Inr s3 \<and> input s3 = butlast (input s)
           \<and> (\<not> isCommandMode s3) = (input s3 = [] \<or> \<not> startsWith (input s3) ''/'')"
    using assms(1,2) by (simp add: onBackspace_def Let_def)
  ultimately show ?thesis by simp
qed

text \<open>
  C4. From Word mode a key leaves the editor in Command mode exactly when the key is
  \<open>/\<close> and the buffer is empty (and then the buffer is \<open>/\<close>). A \<open>/\<close> typed in
  Word mode on a non-empty buffer changes neither buffer, mode, consumed set, selection
  index nor filtered list (like every key it takes down a Ctrl-C notice that is
  showing; without one the state is returned as it was). A backspace in Command mode
  removes the last character, and the editor is back in Word mode exactly when the
  buffer left is empty or does not start with \<open>/\<close>.
\<close>

theorem command_mode_transitions:
  "(\<not> isCommandMode s \<and> handleKey rv pool key s = Inr s1
      \<longrightarrow> isCommandMode s1 = (key = ''/'' \<and> input s = []))
   \<and> (\<not> isCommandMode s \<and> input s = []
      \<longrightarrow> (\<exists>s0. handleKey rv pool ''/'' s = Inr s0 \<and> isCommandMode s0 \<and> input s0 = ''/''))
   \<and> (\<not> isCommandMode s \<and> input s \<noteq> []
      \<longrightarrow> (\<exists>s2. handleKey rv pool ''/'' s = Inr s2 \<and> input s2 = input s
             \<and> isCommandMode s2 = isCommandMode s \<and> usedIndices s2 = usedIndices s
             \<and> selectedIndex s2 = selectedIndex s \<and> filteredCommands s2 = filteredCommands s
             \<and> (\<not> ctrlCShown s \<longrightarrow> s2 = s)))
   \<and> (isCommandMode s \<and> input s \<noteq> [] \<and> (key = keyDelete \<or> key = keyBackspace)
      \<longrightarrow> (\<exists>s3. handleKey rv pool key s = Inr s3 \<and> input s3 = butlast (input s)
             \<and> (\<not> isCommandMode s3) = (input s3 = [] \<or> \<not> startsWith (input s3) ''/'')))"
proof (intro conjI impI)
  assume "\<not> isCommandMode s \<and> handleKey rv pool key s = Inr s1"
  then show "isCommandMode s1 = (key = ''/'' \<and> input s = [])"
    using word_mode_stays_word by blast
next
  assume "\<not> isCommandMode s \<and> input s = []"
  then show "\<exists>s0. handleKey rv pool ''/'' s = Inr s0 \<and> isCommandMode s0 \<and> input s0 = ''/''"
    by (simp add: handleKey_def keys onChar_def Let_def)
next
  assume a: "\<not> isCommandMode s \<and> input s \<noteq> []"
  then have "handleKey rv pool ''/'' s = Inr (resetCtrlC rv s)"
    by (simp add: slash_mid_word_ignored)
  then show "\<exists>s2. handleKey rv pool ''/'' s = Inr s2 \<and> input s2 = input s
             \<and> isCommandMode s2 = isCommandMode s \<and> usedIndices s2 = usedIndices s
             \<and> selectedIndex s2 = selectedIndex s \<and> filteredCommands s2 = filteredCommands s
             \<and> (\<not> ctrlCShown s \<longrightarrow> s2 = s)"
    by (simp add: resetCtrlC_idle)
next
  assume "isCommandMode s \<and> input s \<noteq> [] \<and> (key = keyDelete \<or> key = keyBackspace)"
  then show "\<exists>s3. handleKey rv pool key s = Inr s3 \<and> input s3 = butlast (input s)
             \<and> (\<not> isCommandMode s3) = (input s3 = [] \<or> \<not> startsWith (input s3) ''/'')"
    using command_backspace by blast
qed

theorem command_mode_transitions_witness:
  "handleKey Part000 [''C'', ''A'', ''T''] ''/''
     (projr (interactiveInput Part000 [''C'', ''A'', ''T''] [''C'', ''A'']))
   = Inr (projr (interactiveInput Part000 [''C'', ''A'', ''T''] [''C'', ''A'']))
   \<and> input (projr (interactiveInput Part000 [''C'', ''A'', ''T''] [''C'', ''A''])) = ''CA''"
proof -
  let ?s = "projr (interactiveInput Part000 [''C'', ''A'', ''T''] [''C'', ''A''])"
  have a: "\<not> isCommandMode ?s" "input ?s \<noteq> []" "\<not> ctrlCShown ?s" "input ?s = ''CA''"
    by code_simp+
  show ?thesis
    using command_mode_transitions [of ?s Part000 "[''C'', ''A'', ''T'']" "''/''" ?s] a by auto
qed

section \<open>The invariants hold in every session\<close>

subsection \<open>The pool tracker\<close>

lemma toUpperChar_idem: "toUpperChar (toUpperChar c) = toUpperChar c"
  unfolding toUpperChar_def by (simp split: if_splits)

lemma toUpperCase_idem: "toUpperCase (toUpperCase str) = toUpperCase str"
  by (simp add: toUpperCase_def toUpperChar_idem)

lemma toUpperChar_letter: "isAsciiLetter c \<Longrightarrow> isAsciiLetter (toUpperChar c)"
  by (auto simp: isAsciiLetter_def toUpperChar_def)

lemma scanPool_found:
  "scanPool up ps used i \<noteq> - 1 \<Longrightarrow>
     (\<exists>j < length ps. scanPool up ps used i = int (i + j) \<and> i + j \<notin> set used
        \<and> toUpperCase (ps ! j) = up)"
proof (induction ps arbitrary: i)
  case Nil
  then show ?case by simp
next
  case (Cons p ps)
  show ?case
  proof (cases "i \<notin> set used \<and> toUpperCase p = up")
    case True
    then show ?thesis by (intro exI [of _ 0]) simp
  next
    case False
    then have "scanPool up ps used (Suc i) \<noteq> - 1" using Cons.prems by auto
    from Cons.IH [OF this] obtain j where
      "j < length ps" "scanPool up ps used (Suc i) = int (Suc i + j)"
      "Suc i + j \<notin> set used" "toUpperCase (ps ! j) = up" by blast
    then show ?thesis using False by (intro exI [of _ "Suc j"]) auto
  qed
qed

lemma isLetterAvailable_found:
  assumes "isLetterAvailable letter pool used \<noteq> - 1"
  shows "nat (isLetterAvailable letter pool used) < length pool
         \<and> nat (isLetterAvailable letter pool used) \<notin> set used
         \<and> toUpperCase (pool ! nat (isLetterAvailable letter pool used)) = toUpperCase letter"
  using scanPool_found [of "toUpperCase letter" pool used 0] assms
  by (auto simp: isLetterAvailable_def)

lemma releaseIndex_total:
  "(\<forall>i \<in> set used. i < length pool) \<Longrightarrow> \<exists>used'. releaseIndex up pool used = Inr used'"
  by (induction used) auto

subsection \<open>The menu operations\<close>

lemma clearMenuOf_menu:
  "menuVisible s = (renderedMenuLines s \<noteq> 0) \<Longrightarrow>
     renderedMenuLines (clearMenuOf rv s) = 0 \<and> menuVisible (clearMenuOf rv s) = False"
  by (cases rv) (auto simp: clearMenu_def clearMenu_index_def clearBelow_def)

lemma renderMenuOf_menu:
  assumes "menuVisible s = (renderedMenuLines s \<noteq> 0)"
    and "renderedMenuLines s = 0 \<or> getFilteredCommands s \<noteq> []"
  shows "renderedMenuLines (renderMenuOf rv s) = length (getFilteredCommands s)
         \<and> menuVisible (renderMenuOf rv s) = (getFilteredCommands s \<noteq> [])"
  using assms
  by (cases rv) (auto simp: renderMenu_def renderMenu_index_def clearBelow_def Let_def)

lemma getFilteredCommands_subset: "set (getFilteredCommands s) \<subseteq> set COMMANDS"
  by (auto simp: getFilteredCommands_def)

lemma getFilteredCommands_word: "\<not> isCommandMode s \<Longrightarrow> getFilteredCommands s = []"
  by (simp add: getFilteredCommands_def)

lemma menuInv_renderMenuOf:
  assumes "menuVisible s = (renderedMenuLines s \<noteq> 0)"
    and "renderedMenuLines s = 0 \<or> getFilteredCommands s \<noteq> []"
    and "getFilteredCommands s \<noteq> [] \<longrightarrow>
           0 \<le> selectedIndex s \<and> selectedIndex s < int (length (getFilteredCommands s))"
  shows "menuInv (renderMenuOf rv s)"
proof -
  have "getFilteredCommands (renderMenuOf rv s) = getFilteredCommands s"
    by (rule getFilteredCommands_cong) simp_all
  then show ?thesis
    using assms(3) renderMenuOf_menu [OF assms(1,2), of rv] getFilteredCommands_subset [of s]
    unfolding menuInv_def by simp
qed

lemma menuInv_idle:
  assumes "filteredCommands s = []" and "\<not> isCommandMode s"
    and "menuVisible s = False" and "renderedMenuLines s = 0"
  shows "menuInv s"
  using assms by (simp add: menuInv_def getFilteredCommands_word)

subsection \<open>Word-mode buffer and consumed indices\<close>

lemma poolInv_cong:
  assumes "usedIndices s' = usedIndices s" and "isCommandMode s' = isCommandMode s"
    and "input s' = input s" and "filteredCommands s' = filteredCommands s"
    and "selectedIndex s' = selectedIndex s"
  shows "poolInv pool s' = poolInv pool s"
  using assms by (simp add: poolInv_def)

lemma poolInv_command:
  assumes "isCommandMode s" and "startsWith (input s) ''/''" and "usedIndices s = []"
  shows "poolInv pool s"
  using assms by (simp add: poolInv_def)

lemma poolInv_word_add:
  assumes inv: "poolInv pool s" and w: "\<not> isCommandMode s" and l: "isAsciiLetter c"
    and av: "isLetterAvailable [c] pool (usedIndices s) \<noteq> - 1"
    and s': "usedIndices s' = setAdd (nat (isLetterAvailable [c] pool (usedIndices s))) (usedIndices s)"
      "input s' = input s @ toUpperCase [c]" "isCommandMode s' = isCommandMode s"
      "filteredCommands s' = filteredCommands s" "selectedIndex s' = selectedIndex s"
  shows "poolInv pool s'"
proof -
  let ?i = "nat (isLetterAvailable [c] pool (usedIndices s))"
  have f: "?i < length pool" "?i \<notin> set (usedIndices s)"
    "toUpperCase (pool ! ?i) = toUpperCase [c]"
    using isLetterAvailable_found [OF av] by simp_all
  have u: "usedIndices s' = usedIndices s @ [?i]" using s'(1) f(2) by (simp add: setAdd_def)
  show ?thesis
    using inv w l f u s'(2-5) toUpperChar_letter [OF l]
    by (simp add: poolInv_def toUpperCase_def)
qed

lemma releaseIndex_release:
  assumes "\<forall>i \<in> set used. i < length pool"
    and "\<exists>i \<in> set used. toUpperCase (pool ! i) = up"
  shows "\<exists>idx used'. releaseIndex up pool used = Inr used' \<and> toUpperCase (pool ! idx) = up
           \<and> mset used = add_mset idx (mset used')
           \<and> (distinct used \<longrightarrow> distinct used') \<and> set used' \<subseteq> set used"
  using assms
proof (induction used)
  case Nil
  then show ?case by simp
next
  case (Cons a used)
  show ?case
  proof (cases "toUpperCase (pool ! a) = up")
    case True
    then show ?thesis using Cons.prems by auto
  next
    case False
    then have "\<exists>i \<in> set used. toUpperCase (pool ! i) = up" using Cons.prems by auto
    moreover have "\<forall>i \<in> set used. i < length pool" using Cons.prems by simp
    ultimately obtain idx used' where
      "releaseIndex up pool used = Inr used'" "toUpperCase (pool ! idx) = up"
      "mset used = add_mset idx (mset used')" "distinct used \<longrightarrow> distinct used'"
      "set used' \<subseteq> set used"
      using Cons.IH by blast
    then show ?thesis using False Cons.prems
      by (intro exI [of _ idx] exI [of _ "a # used'"]) auto
  qed
qed

lemma word_last_released:
  assumes inv: "poolInv pool s" and w: "\<not> isCommandMode s" and ne: "input s \<noteq> []"
  shows "[last (input s)] \<noteq> ''/''"
    and "\<exists>used'. releaseIndex (toUpperCase [last (input s)]) pool (usedIndices s) = Inr used'
            \<and> distinct used' \<and> (\<forall>i \<in> set used'. i < length pool)
            \<and> mset (map (\<lambda>i. toUpperCase (pool ! i)) used')
               = mset (map (\<lambda>c. [c]) (butlast (input s)))"
proof -
  let ?c = "last (input s)"
  let ?f = "\<lambda>i. toUpperCase (pool ! i)"
  have cin: "?c \<in> set (input s)" using ne by simp
  have letters: "\<forall>c \<in> set (input s). isAsciiLetter c"
    and m: "mset (map ?f (usedIndices s)) = mset (map (\<lambda>c. [c]) (input s))"
    and d: "distinct (usedIndices s)" and r: "\<forall>i \<in> set (usedIndices s). i < length pool"
    using inv w by (simp_all add: poolInv_def)
  show "[?c] \<noteq> ''/''" using letters cin letter_not_special by auto
  have "[?c] \<in># mset (map (\<lambda>c. [c]) (input s))" using cin by auto
  then have "[?c] \<in># mset (map ?f (usedIndices s))" using m by simp
  then obtain i where i: "i \<in> set (usedIndices s)" "?f i = [?c]" by auto
  then have up: "toUpperCase [?c] = [?c]" using toUpperCase_idem [of "pool ! i"] by simp
  have "\<exists>i \<in> set (usedIndices s). ?f i = toUpperCase [?c]" using i up by auto
  from releaseIndex_release [OF r this] obtain idx used' where
    rel: "releaseIndex (toUpperCase [?c]) pool (usedIndices s) = Inr used'"
    "?f idx = toUpperCase [?c]" "mset (usedIndices s) = add_mset idx (mset used')"
    "distinct (usedIndices s) \<longrightarrow> distinct used'" "set used' \<subseteq> set (usedIndices s)"
    by blast
  have d': "distinct used'" using d rel(4) by simp
  have r': "\<forall>i \<in> set used'. i < length pool" using r rel(5) by auto
  have "mset (map ?f (usedIndices s)) = add_mset (?f idx) (mset (map ?f used'))"
    using rel(3) by simp
  moreover have "mset (map (\<lambda>c. [c]) (butlast (input s) @ [?c]))
                 = add_mset [?c] (mset (map (\<lambda>c. [c]) (butlast (input s))))"
    by simp
  then have "mset (map (\<lambda>c. [c]) (input s))
                 = add_mset [?c] (mset (map (\<lambda>c. [c]) (butlast (input s))))"
    using ne by simp
  ultimately have "mset (map ?f used') = mset (map (\<lambda>c. [c]) (butlast (input s)))"
    using m rel(2) up by simp
  then show "\<exists>used'. releaseIndex (toUpperCase [last (input s)]) pool (usedIndices s) = Inr used'
            \<and> distinct used' \<and> (\<forall>i \<in> set used'. i < length pool)
            \<and> mset (map (\<lambda>i. toUpperCase (pool ! i)) used')
               = mset (map (\<lambda>c. [c]) (butlast (input s)))"
    using rel(1) d' r' by blast
qed

subsection \<open>The branches of the key handler\<close>

lemma commands_start_slash: "c \<in> set COMMANDS \<Longrightarrow> startsWith (name c) ''/''"
  by (auto simp: COMMANDS_def startsWith_def)

lemma commands_lower_case: "c \<in> set COMMANDS \<Longrightarrow> toLowerCase (name c) = name c"
  by (auto simp: COMMANDS_def toLowerCase_def toLowerChar_def)

lemma selectedName_command:
  assumes "menuInv s" and "hasSelection s"
  shows "filteredCommands s ! nat (selectedIndex s) \<in> set COMMANDS"
    and "startsWith (selectedName s) ''/''"
    and "toLowerCase (selectedName s) = selectedName s"
proof -
  have "nat (selectedIndex s) < length (filteredCommands s)"
    using assms(2) by (auto simp: hasSelection_def)
  then have "filteredCommands s ! nat (selectedIndex s) \<in> set (filteredCommands s)"
    by (rule nth_mem)
  then show c: "filteredCommands s ! nat (selectedIndex s) \<in> set COMMANDS"
    using assms(1) by (auto simp: menuInv_def)
  show "startsWith (selectedName s) ''/''"
    unfolding selectedName_def using c by (rule commands_start_slash)
  show "toLowerCase (selectedName s) = selectedName s"
    unfolding selectedName_def using c by (rule commands_lower_case)
qed

lemma showCtrlC_menu:
  assumes "menuVisible s = (renderedMenuLines s \<noteq> 0)"
  shows "menuVisible (showCtrlC rv s) = (renderedMenuLines (showCtrlC rv s) \<noteq> 0)
         \<and> (renderedMenuLines (showCtrlC rv s) = 0
             \<or> renderedMenuLines (showCtrlC rv s) = renderedMenuLines s)"
  using assms by (cases rv) (auto simp: clearMenu_def clearMenu_index_def clearBelow_def)

lemma inv_showCtrlC:
  assumes "poolInv pool s" and "menuInv s"
  shows "poolInv pool (showCtrlC rv s) \<and> menuInv (showCtrlC rv s)"
proof -
  have "poolInv pool (showCtrlC rv s) = poolInv pool s" by (rule poolInv_cong) simp_all
  moreover have "getFilteredCommands (showCtrlC rv s) = getFilteredCommands s"
    by (rule getFilteredCommands_cong) simp_all
  moreover have "menuVisible s = (renderedMenuLines s \<noteq> 0)" using assms(2) by (simp add: menuInv_def)
  ultimately show ?thesis
    using assms showCtrlC_menu [of s rv] unfolding menuInv_def by auto
qed

lemma inv_resetCtrlC:
  assumes "poolInv pool s" and "menuInv s"
  shows "poolInv pool (resetCtrlC rv s) \<and> menuInv (resetCtrlC rv s)"
proof -
  have "poolInv pool (resetCtrlC rv s) = poolInv pool s" by (rule poolInv_cong) simp_all
  moreover have "getFilteredCommands (resetCtrlC rv s) = getFilteredCommands s"
    by (rule getFilteredCommands_cong) simp_all
  ultimately show ?thesis using assms unfolding menuInv_def by simp
qed

lemma inv_onArrowUp:
  assumes p: "poolInv pool s" and m: "menuInv s" and r: "resolved s = None"
  shows "poolInv pool (onArrowUp rv s) \<and> menuInv (onArrowUp rv s)"
proof (cases "isCommandMode s \<and> length (filteredCommands s) > 0")
  case False
  then show ?thesis using p m by (auto simp: onArrowUp_def)
next
  case True
  let ?s0 = "s\<lparr>selectedIndex :=
                  (if selectedIndex s \<le> 0 then int (length (filteredCommands s)) - 1
                   else selectedIndex s - 1)\<rparr>"
  have fc: "getFilteredCommands ?s0 = filteredCommands s"
    using m r by (simp add: menuInv_def getFilteredCommands_def)
  have "menuInv (renderMenuOf rv ?s0)"
  proof (rule menuInv_renderMenuOf)
    show "menuVisible ?s0 = (renderedMenuLines ?s0 \<noteq> 0)" using m by (simp add: menuInv_def)
    show "renderedMenuLines ?s0 = 0 \<or> getFilteredCommands ?s0 \<noteq> []"
      using True fc by simp
    show "getFilteredCommands ?s0 \<noteq> [] \<longrightarrow>
           0 \<le> selectedIndex ?s0 \<and> selectedIndex ?s0 < int (length (getFilteredCommands ?s0))"
      using True m unfolding fc by (auto simp: menuInv_def)
  qed
  moreover have "poolInv pool (renderMenuOf rv ?s0)"
    using p True by (intro poolInv_command) (simp_all add: poolInv_def)
  ultimately show ?thesis using True by (simp add: onArrowUp_def)
qed

lemma inv_onArrowDown:
  assumes p: "poolInv pool s" and m: "menuInv s" and r: "resolved s = None"
  shows "poolInv pool (onArrowDown rv s) \<and> menuInv (onArrowDown rv s)"
proof (cases "isCommandMode s \<and> length (filteredCommands s) > 0")
  case False
  then show ?thesis using p m by (auto simp: onArrowDown_def)
next
  case True
  let ?s0 = "s\<lparr>selectedIndex :=
                  (if selectedIndex s \<ge> int (length (filteredCommands s)) - 1 then 0
                   else selectedIndex s + 1)\<rparr>"
  have fc: "getFilteredCommands ?s0 = filteredCommands s"
    using m r by (simp add: menuInv_def getFilteredCommands_def)
  have "menuInv (renderMenuOf rv ?s0)"
  proof (rule menuInv_renderMenuOf)
    show "menuVisible ?s0 = (renderedMenuLines ?s0 \<noteq> 0)" using m by (simp add: menuInv_def)
    show "renderedMenuLines ?s0 = 0 \<or> getFilteredCommands ?s0 \<noteq> []"
      using True fc by simp
    show "getFilteredCommands ?s0 \<noteq> [] \<longrightarrow>
           0 \<le> selectedIndex ?s0 \<and> selectedIndex ?s0 < int (length (getFilteredCommands ?s0))"
      using True m unfolding fc by (auto simp: menuInv_def)
  qed
  moreover have "poolInv pool (renderMenuOf rv ?s0)"
    using p True by (intro poolInv_command) (simp_all add: poolInv_def)
  ultimately show ?thesis using True by (simp add: onArrowDown_def)
qed

lemma inv_onTab:
  assumes p: "poolInv pool s" and m: "menuInv s"
  shows "poolInv pool (onTab rv s) \<and> menuInv (onTab rv s)"
proof (cases "hasSelection s")
  case False
  then show ?thesis using p m by (simp add: onTab_def)
next
  case True
  let ?c = "renderInput ((clearMenuOf rv s)\<lparr>input := selectedName s, selectedIndex := 0\<rparr>)"
  have eq: "onTab rv s = renderMenuOf rv ?c"
    using True by (simp add: onTab_def Let_def selectedName_def)
  have cm: "renderedMenuLines (clearMenuOf rv s) = 0" "menuVisible (clearMenuOf rv s) = False"
    using clearMenuOf_menu [of s rv] m by (simp_all add: menuInv_def)
  have "menuInv (renderMenuOf rv ?c)"
    by (rule menuInv_renderMenuOf) (simp_all add: cm)
  moreover have "poolInv pool (renderMenuOf rv ?c)"
    using p True selectedName_command(2) [OF m True]
    by (intro poolInv_command) (simp_all add: poolInv_def hasSelection_def)
  ultimately show ?thesis using eq by simp
qed

lemma inv_onEnter:
  assumes p: "poolInv pool s" and m: "menuInv s"
  shows "poolInv pool (onEnter rv s) \<and> menuInv (onEnter rv s)"
proof -
  let ?s1 = "if hasSelection s then s\<lparr>input := selectedName s\<rparr> else s"
  have p1: "poolInv pool ?s1"
  proof (cases "hasSelection s")
    case True
    then show ?thesis
      using p selectedName_command(2) [OF m True]
      by (simp add: poolInv_def hasSelection_def)
  next
    case False
    then show ?thesis using p by simp
  qed
  have vis: "menuVisible ?s1 = (renderedMenuLines ?s1 \<noteq> 0)" using m by (simp add: menuInv_def)
  have cm: "renderedMenuLines (clearMenuOf rv ?s1) = 0" "menuVisible (clearMenuOf rv ?s1) = False"
    using clearMenuOf_menu [OF vis, of rv] by simp_all
  have "poolInv pool (onEnter rv s) = poolInv pool ?s1"
    by (rule poolInv_cong) (simp_all add: onEnter_def Let_def)
  moreover have "menuInv (onEnter rv s)"
    using m cm unfolding menuInv_def by (simp add: onEnter_def Let_def)
  ultimately show ?thesis using p1 by simp
qed

lemma inv_onEscape: "poolInv pool (onEscape rv s) \<and> menuInv (onEscape rv s)"
  if "menuInv s"
proof -
  have cm: "renderedMenuLines (clearMenuOf rv s) = 0" "menuVisible (clearMenuOf rv s) = False"
    using clearMenuOf_menu [of s rv] that by (simp_all add: menuInv_def)
  have "poolInv pool (onEscape rv s)" by (simp add: poolInv_def)
  moreover have "menuInv (onEscape rv s)"
    by (rule menuInv_idle) (simp_all add: onEscape_def Let_def cm)
  ultimately show ?thesis by simp
qed

lemma startsWith_butlast:
  "startsWith str ''/'' \<Longrightarrow> butlast str \<noteq> [] \<Longrightarrow> startsWith (butlast str) ''/''"
  by (cases str) (auto simp: startsWith_def split: if_splits)

lemma startsWith_append: "startsWith str ''/'' \<Longrightarrow> startsWith (str @ rest) ''/''"
  by (cases str) (auto simp: startsWith_def)

lemma startsWith_nonempty: "startsWith str ''/'' \<Longrightarrow> str \<noteq> []"
  by (auto simp: startsWith_def)

lemma inv_onBackspace_command:
  assumes p: "poolInv pool s" and m: "menuInv s" and c: "isCommandMode s"
  shows "\<exists>s'. onBackspace rv pool s = Inr s' \<and> poolInv pool s' \<and> menuInv s'
           \<and> resolved s' = resolved s"
proof -
  have sw: "startsWith (input s) ''/''" and u: "usedIndices s = []"
    using p c by (simp_all add: poolInv_def)
  have ne: "input s \<noteq> []" using sw by (rule startsWith_nonempty)
  have cm: "renderedMenuLines (clearMenuOf rv s) = 0" "menuVisible (clearMenuOf rv s) = False"
    using clearMenuOf_menu [of s rv] m by (simp_all add: menuInv_def)
  show ?thesis
  proof (cases "butlast (input s) = []")
    case True
    let ?s' = "renderInput ((clearMenuOf rv s)\<lparr>input := [], selectedIndex := 0,
                 isCommandMode := False, filteredCommands := []\<rparr>)"
    have "onBackspace rv pool s = Inr ?s'"
      using c ne True by (simp add: onBackspace_def Let_def)
    moreover have "poolInv pool ?s'" using u by (simp add: poolInv_def)
    moreover have "menuInv ?s'" by (rule menuInv_idle) (simp_all add: cm)
    ultimately show ?thesis by simp
  next
    case False
    let ?c = "renderInput ((clearMenuOf rv s)\<lparr>input := butlast (input s), selectedIndex := 0\<rparr>)"
    have sw': "startsWith (butlast (input s)) ''/''" using sw False by (rule startsWith_butlast)
    have "onBackspace rv pool s = Inr (renderMenuOf rv ?c)"
      using c ne False sw' by (simp add: onBackspace_def Let_def)
    moreover have "menuInv (renderMenuOf rv ?c)"
      by (rule menuInv_renderMenuOf) (simp_all add: cm)
    moreover have "poolInv pool (renderMenuOf rv ?c)"
      using c sw' u by (intro poolInv_command) simp_all
    ultimately show ?thesis by simp
  qed
qed

lemma inv_onBackspace_word:
  assumes p: "poolInv pool s" and m: "menuInv s" and w: "\<not> isCommandMode s"
  shows "\<exists>s'. onBackspace rv pool s = Inr s' \<and> poolInv pool s' \<and> menuInv s'
           \<and> resolved s' = resolved s"
proof (cases "input s = []")
  case True
  then show ?thesis using p m by (simp add: onBackspace_def)
next
  case False
  have cm: "renderedMenuLines (clearMenuOf rv s) = 0" "menuVisible (clearMenuOf rv s) = False"
    using clearMenuOf_menu [of s rv] m by (simp_all add: menuInv_def)
  have fc: "filteredCommands s = []" using p w by (simp add: poolInv_def)
  have letters: "\<forall>c \<in> set (butlast (input s)). isAsciiLetter c"
    using p w by (auto simp: poolInv_def dest: in_set_butlastD)
  from word_last_released [OF p w False] obtain used' where
    l: "[last (input s)] \<noteq> ''/''"
    and rel: "releaseIndex (toUpperCase [last (input s)]) pool (usedIndices s) = Inr used'"
    and u: "distinct used'" "\<forall>i \<in> set used'. i < length pool"
      "mset (map (\<lambda>i. toUpperCase (pool ! i)) used') = mset (map (\<lambda>c. [c]) (butlast (input s)))"
    by blast
  let ?s' = "renderInput (onUpdate ((clearMenuOf rv s)\<lparr>input := butlast (input s),
               selectedIndex := 0, isCommandMode := False, filteredCommands := [],
               usedIndices := used'\<rparr>))"
  have "onBackspace rv pool s = Inr ?s'"
  proof (cases "butlast (input s) = [] \<or> \<not> startsWith (butlast (input s)) ''/''")
    case True
    then show ?thesis
      using False w l rel by (simp add: onBackspace_def Let_def)
  next
    case no: False
    have "(clearMenuOf rv s)\<lparr>input := butlast (input s), selectedIndex := 0, usedIndices := used'\<rparr>
          = (clearMenuOf rv s)\<lparr>input := butlast (input s), selectedIndex := 0,
               isCommandMode := False, filteredCommands := [], usedIndices := used'\<rparr>"
      using w fc by (intro editor.equality) simp_all
    then show ?thesis
      using no False w l rel by (simp add: onBackspace_def Let_def)
  qed
  moreover have "poolInv pool ?s'" using u letters by (simp add: poolInv_def)
  moreover have "menuInv ?s'" by (rule menuInv_idle) (simp_all add: cm)
  ultimately show ?thesis by simp
qed

lemma isSingleLetter_char: "isSingleLetter char \<Longrightarrow> \<exists>c. char = [c] \<and> isAsciiLetter c"
  by (cases char rule: isSingleLetter.cases) simp_all

lemma getFilteredCommands_slash:
  "isCommandMode s \<Longrightarrow> input s = ''/'' \<Longrightarrow> getFilteredCommands s = COMMANDS"
  by (simp add: getFilteredCommands_def COMMANDS_def startsWith_def)

lemma inv_onChar:
  assumes p: "poolInv pool s" and m: "menuInv s" and r: "resolved s = None"
  shows "poolInv pool (onChar rv pool char s) \<and> menuInv (onChar rv pool char s)"
proof -
  have vis: "menuVisible s = (renderedMenuLines s \<noteq> 0)" using m by (simp add: menuInv_def)
  have cm: "renderedMenuLines (clearMenuOf rv s) = 0" "menuVisible (clearMenuOf rv s) = False"
    using clearMenuOf_menu [OF vis, of rv] by simp_all
  consider (start) "char = ''/''" "input s = []"
    | (cmd) "\<not> (char = ''/'' \<and> input s = [])" "isCommandMode s"
    | (letter) "\<not> (char = ''/'' \<and> input s = [])" "\<not> isCommandMode s" "isSingleLetter char"
        "isLetterAvailable char pool (usedIndices s) \<noteq> - 1"
    | (ignored) "\<not> (char = ''/'' \<and> input s = [])" "\<not> isCommandMode s"
        "\<not> (isSingleLetter char \<and> isLetterAvailable char pool (usedIndices s) \<noteq> - 1)"
    by blast
  then show ?thesis
  proof cases
    case start
    let ?c = "renderInput (s\<lparr>isCommandMode := True, input := ''/'', selectedIndex := 0\<rparr>)"
    have w: "\<not> isCommandMode s"
      using p start(2) by (auto simp: poolInv_def dest: startsWith_nonempty)
    then have u: "usedIndices s = []" using p start(2) by (simp add: poolInv_def)
    have eq: "onChar rv pool char s = renderMenuOf rv ?c" using start by (simp add: onChar_def)
    have g: "getFilteredCommands ?c = COMMANDS" by (rule getFilteredCommands_slash) simp_all
    have "menuInv (renderMenuOf rv ?c)"
      by (rule menuInv_renderMenuOf) (simp_all add: vis g COMMANDS_def)
    moreover have "poolInv pool (renderMenuOf rv ?c)"
      using u by (intro poolInv_command) (simp_all add: startsWith_def)
    ultimately show ?thesis using eq by simp
  next
    case cmd
    let ?c = "renderInput ((clearMenuOf rv s)\<lparr>input := input s @ char, selectedIndex := 0\<rparr>)"
    have eq: "onChar rv pool char s = renderMenuOf rv ?c"
      using cmd by (auto simp: onChar_def Let_def)
    have "menuInv (renderMenuOf rv ?c)"
      by (rule menuInv_renderMenuOf) (simp_all add: cm)
    moreover have "poolInv pool (renderMenuOf rv ?c)"
      using p cmd(2) by (intro poolInv_command) (simp_all add: poolInv_def startsWith_append)
    ultimately show ?thesis using eq by simp
  next
    case letter
    from isSingleLetter_char [OF letter(3)] obtain c where c: "char = [c]" "isAsciiLetter c"
      by blast
    let ?s' = "renderInput (onUpdate (s\<lparr>usedIndices :=
                 setAdd (nat (isLetterAvailable char pool (usedIndices s))) (usedIndices s),
                 input := input s @ toUpperCase char\<rparr>))"
    have eq: "onChar rv pool char s = ?s'"
      using letter by (auto simp: onChar_def Let_def)
    have "poolInv pool ?s'"
      using letter(4) unfolding c(1)
      by (intro poolInv_word_add [OF p letter(2) c(2)]) simp_all
    moreover have "menuInv ?s'"
      using m letter(2) unfolding menuInv_def by (simp add: getFilteredCommands_def)
    ultimately show ?thesis using eq by simp
  next
    case ignored
    then have "onChar rv pool char s = s" by (auto simp: onChar_def Let_def)
    then show ?thesis using p m by simp
  qed
qed

subsection \<open>Sessions\<close>

lemma inv_handleKey:
  assumes p: "poolInv pool s" and m: "menuInv s" and r: "resolved s = None"
  shows "\<exists>s'. handleKey rv pool key s = Inr s' \<and> poolInv pool s' \<and> menuInv s'"
proof -
  let ?s = "resetCtrlC rv s"
  have i: "poolInv pool ?s" "menuInv ?s" using inv_resetCtrlC [OF p m, of rv] by simp_all
  have r': "resolved ?s = None" using r by simp
  obtain res where res: "handleKey rv pool key s = res" by simp
  then show ?thesis
  proof (cases rule: handleKey_cases)
    case CtrlC
    then show ?thesis using res inv_showCtrlC [OF p m, of rv] by simp
  next
    case Up
    then show ?thesis using res inv_onArrowUp [OF i r', of rv] by simp
  next
    case Down
    then show ?thesis using res inv_onArrowDown [OF i r', of rv] by simp
  next
    case Tab
    then show ?thesis using res inv_onTab [OF i, of rv] by simp
  next
    case Enter
    then show ?thesis using res inv_onEnter [OF i, of rv] by simp
  next
    case Backspace
    show ?thesis
    proof (cases "isCommandMode ?s")
      case True
      then show ?thesis using res Backspace(2) inv_onBackspace_command [OF i True, of rv] by auto
    next
      case False
      then show ?thesis using res Backspace(2) inv_onBackspace_word [OF i False, of rv] by auto
    qed
  next
    case Escape
    then show ?thesis using res inv_onEscape [OF i(2), of pool rv] by simp
  next
    case Char
    then show ?thesis using res inv_onChar [OF i r', of rv key] by simp
  qed
qed

lemma inv_run:
  "poolInv pool s \<Longrightarrow> menuInv s \<Longrightarrow>
     \<exists>s'. run rv pool keys s = Inr s' \<and> poolInv pool s' \<and> menuInv s'"
proof (induction keys arbitrary: s)
  case Nil
  then show ?case by simp
next
  case (Cons key keys)
  show ?case
  proof (cases "resolved s = None")
    case False
    then show ?thesis using Cons.prems by simp
  next
    case True
    from inv_handleKey [OF Cons.prems True] obtain s1 where
      "handleKey rv pool key s = Inr s1" "poolInv pool s1" "menuInv s1" by blast
    then show ?thesis using True Cons.IH [of s1] by simp
  qed
qed

lemma inv_initial: "poolInv pool initialEditor \<and> menuInv initialEditor"
  by (simp add: initialEditor_def poolInv_def menuInv_def getFilteredCommands_def)

lemma inv_session:
  "\<exists>s. interactiveInput rv pool keys = Inr s \<and> poolInv pool s \<and> menuInv s"
  unfolding interactiveInput_def using inv_initial inv_run by blast

lemma poolInv_word_sizes:
  assumes "poolInv pool s" and "\<not> isCommandMode s"
  shows "length (usedIndices s) = length (input s)"
proof -
  have "mset (map (\<lambda>i. toUpperCase (pool ! i)) (usedIndices s)) = mset (map (\<lambda>c. [c]) (input s))"
    using assms by (simp add: poolInv_def)
  then have "size (mset (map (\<lambda>i. toUpperCase (pool ! i)) (usedIndices s)))
             = size (mset (map (\<lambda>c. [c]) (input s)))" by (rule arg_cong)
  then show ?thesis by simp
qed

text \<open>
  C1. For every pool and every sequence of keystrokes (letters drawn from the pool
  or any other keys), the session raises no exception, the consumed indices are
  pairwise distinct positions of the pool, and whenever the editor is in Word mode the
  size of the consumed set equals the length of the buffer.
\<close>

theorem consumed_set_matches_buffer:
  "\<exists>s. interactiveInput rv pool keys = Inr s
       \<and> distinct (usedIndices s) \<and> set (usedIndices s) \<subseteq> {..<length pool}
       \<and> (\<not> isCommandMode s \<longrightarrow>
            card (set (usedIndices s)) = length (input s)
            \<and> length (usedIndices s) = length (input s))"
proof -
  from inv_session obtain s where
    s: "interactiveInput rv pool keys = Inr s" "poolInv pool s" by blast
  have d: "distinct (usedIndices s)" and r: "set (usedIndices s) \<subseteq> {..<length pool}"
    using s(2) by (auto simp: poolInv_def)
  have "length (usedIndices s) = length (input s)" if "\<not> isCommandMode s"
    using poolInv_word_sizes [OF s(2) that] .
  then show ?thesis using s(1) d r by (auto simp: distinct_card)
qed

theorem consumed_set_matches_buffer_witness:
  "\<exists>s. interactiveInput Part000 [''A'', ''A'', ''B''] [''a'', ''B'', ''A'', ''A'', keyDelete] = Inr s
       \<and> input s = ''AB'' \<and> distinct (usedIndices s)
       \<and> card (set (usedIndices s)) = length (input s)"
proof -
  let ?r = "interactiveInput Part000 [''A'', ''A'', ''B''] [''a'', ''B'', ''A'', ''A'', keyDelete]"
  have a: "?r = Inr (projr ?r)" "\<not> isCommandMode (projr ?r)" "input (projr ?r) = ''AB''"
    by code_simp+
  show ?thesis
    using consumed_set_matches_buffer
      [of Part000 "[''A'', ''A'', ''B'']" "[''a'', ''B'', ''A'', ''A'', keyDelete]"] a
    by auto
qed

text \<open>
  C9. In every session, at a state the editor has not resolved on, Enter (carriage return
  or line feed) returns without an exception. If the editor is in Command mode and the
  selection index lies inside the filtered list, the buffer becomes the name of the
  selected command and the editor resolves with exactly that name and the flag true. In
  every case the flag resolved with is true exactly when the editor was in Command mode.
\<close>

theorem enter_resolves_selected_command:
  assumes "interactiveInput rv pool keys = Inr s" and "resolved s = None"
    and "key = keyReturn \<or> key = keyNewline"
  shows "\<exists>s'. handleKey rv pool key s = Inr s'
           \<and> (isCommandMode s \<and> 0 \<le> selectedIndex s
                \<and> selectedIndex s < int (length (filteredCommands s)) \<longrightarrow>
                  input s' = name (filteredCommands s ! nat (selectedIndex s))
                  \<and> resolved s' = Some (name (filteredCommands s ! nat (selectedIndex s)), True))
           \<and> map_option snd (resolved s') = Some (isCommandMode s)"
proof -
  let ?s = "resetCtrlC rv s"
  have m: "menuInv s" using inv_session [of rv pool keys] assms(1) by auto
  have m': "menuInv ?s" using m unfolding menuInv_def
    by (simp add: getFilteredCommands_cong [of ?s s])
  have h: "handleKey rv pool key s = Inr (onEnter rv ?s)"
    using assms(3) keys_distinct by (auto simp: handleKey_def Let_def)
  have "input (onEnter rv ?s) = selectedName s
        \<and> resolved (onEnter rv ?s) = Some (selectedName s, True)"
    if sel: "hasSelection s"
  proof -
    have "hasSelection ?s" using sel by simp
    from selectedName_command(3) [OF m' this] have "toLowerCase (selectedName s) = selectedName s"
      by simp
    then show ?thesis
      using onEnter_result [of rv ?s] sel by (simp add: hasSelection_def)
  qed
  then show ?thesis
    using h onEnter_result [of rv ?s] by (simp add: hasSelection_def selectedName_def)
qed

theorem enter_resolves_selected_command_witness:
  "\<exists>s'. handleKey Part000 [] keyReturn
          (projr (interactiveInput Part000 [] [''/'', ''h'', keyDown])) = Inr s'
        \<and> input s' = ''/hint'' \<and> resolved s' = Some (''/hint'', True)"
proof -
  let ?r = "interactiveInput Part000 [] [''/'', ''h'', keyDown]"
  have a: "?r = Inr (projr ?r)" by code_simp
  have b: "resolved (projr ?r) = None" by code_simp
  have c: "keyReturn = keyReturn \<or> keyReturn = keyNewline" by simp
  have d: "isCommandMode (projr ?r)" "selectedIndex (projr ?r) = 1"
    "length (filteredCommands (projr ?r)) = 2"
    "name (filteredCommands (projr ?r) ! 1) = ''/hint''"
    by code_simp+
  show ?thesis using enter_resolves_selected_command [OF a b c] d by auto
qed

section \<open>The selection index\<close>

lemma onTab_selection: "input (onTab rv s) \<noteq> input s \<longrightarrow> selectedIndex (onTab rv s) = 0"
  by (simp add: onTab_def Let_def)

lemma onBackspace_selection:
  "onBackspace rv pool s = Inr s' \<Longrightarrow> input s' \<noteq> input s \<Longrightarrow> selectedIndex s' = 0"
  by (auto simp: onBackspace_def Let_def split: if_splits sum.splits)

lemma onChar_selection:
  assumes "poolInv pool s"
  shows "input (onChar rv pool char s) \<noteq> input s \<longrightarrow> selectedIndex (onChar rv pool char s) = 0"
proof -
  have "selectedIndex s = 0" if "\<not> isCommandMode s" using assms that by (simp add: poolInv_def)
  then show ?thesis by (auto simp: onChar_def Let_def)
qed

lemma onArrow_selection:
  "selectedIndex (onArrowUp rv s) =
     (if isCommandMode s \<and> filteredCommands s \<noteq> []
      then (if selectedIndex s \<le> 0 then int (length (filteredCommands s)) - 1
            else selectedIndex s - 1)
      else selectedIndex s)"
  "selectedIndex (onArrowDown rv s) =
     (if isCommandMode s \<and> filteredCommands s \<noteq> []
      then (if selectedIndex s \<ge> int (length (filteredCommands s)) - 1 then 0
            else selectedIndex s + 1)
      else selectedIndex s)"
  by (simp_all add: onArrowUp_def onArrowDown_def)

lemma handleKey_selection_reset:
  assumes p: "poolInv pool s" and h: "handleKey rv pool key s = Inr s'"
    and k: "key \<noteq> keyReturn" "key \<noteq> keyNewline" and c: "input s' \<noteq> input s"
  shows "selectedIndex s' = 0"
proof -
  let ?s = "resetCtrlC rv s"
  have p': "poolInv pool ?s" by (subst poolInv_cong [of ?s s]) (simp_all add: p)
  from h show ?thesis
  proof (cases rule: handleKey_cases)
    case Tab
    then show ?thesis using onTab_selection [of rv ?s] c by simp
  next
    case Backspace
    then show ?thesis using onBackspace_selection [of rv pool ?s s'] c by simp
  next
    case Char
    then show ?thesis using onChar_selection [OF p', of rv key] c by simp
  qed (use c k in auto)
qed

lemma handleKey_arrows:
  assumes "handleKey rv pool key s = Inr s'"
  shows "key = keyUp \<longrightarrow> selectedIndex s' = selectedIndex (onArrowUp rv s)"
    and "key = keyDown \<longrightarrow> selectedIndex s' = selectedIndex (onArrowDown rv s)"
  using assms keys_distinct by (auto simp: handleKey_def Let_def onArrow_selection)

text \<open>
  C10. In every session the state reached raises no exception and, when its filtered
  list is non-empty, has its selection index inside the list. Every further key handled
  there keeps that; a key other than Enter that changes the buffer leaves the selection
  index at 0; the Up arrow moves the index down by one and from 0 to the last entry,
  the Down arrow moves it up by one and from the last entry to 0.
\<close>

theorem selection_index_in_bounds:
  "\<exists>s. interactiveInput rv pool keys = Inr s
       \<and> (filteredCommands s \<noteq> [] \<longrightarrow>
            0 \<le> selectedIndex s \<and> selectedIndex s < int (length (filteredCommands s)))
       \<and> (resolved s = None \<longrightarrow>
            (\<exists>s'. handleKey rv pool key s = Inr s'
               \<and> (filteredCommands s' \<noteq> [] \<longrightarrow>
                    0 \<le> selectedIndex s' \<and> selectedIndex s' < int (length (filteredCommands s')))
               \<and> (key \<noteq> keyReturn \<and> key \<noteq> keyNewline \<and> input s' \<noteq> input s \<longrightarrow>
                    selectedIndex s' = 0)
               \<and> (key = keyUp \<and> isCommandMode s \<and> filteredCommands s \<noteq> [] \<longrightarrow>
                    selectedIndex s' =
                      (if selectedIndex s = 0 then int (length (filteredCommands s)) - 1
                       else selectedIndex s - 1))
               \<and> (key = keyDown \<and> isCommandMode s \<and> filteredCommands s \<noteq> [] \<longrightarrow>
                    selectedIndex s' =
                      (if selectedIndex s = int (length (filteredCommands s)) - 1 then 0
                       else selectedIndex s + 1))))"
proof -
  from inv_session obtain s where
    s: "interactiveInput rv pool keys = Inr s" "poolInv pool s" "menuInv s" by blast
  have b: "filteredCommands s \<noteq> [] \<longrightarrow>
            0 \<le> selectedIndex s \<and> selectedIndex s < int (length (filteredCommands s))"
    using s(3) by (simp add: menuInv_def)
  have step: "resolved s = None \<longrightarrow> (\<exists>s'. handleKey rv pool key s = Inr s'
               \<and> (filteredCommands s' \<noteq> [] \<longrightarrow>
                    0 \<le> selectedIndex s' \<and> selectedIndex s' < int (length (filteredCommands s')))
               \<and> (key \<noteq> keyReturn \<and> key \<noteq> keyNewline \<and> input s' \<noteq> input s \<longrightarrow>
                    selectedIndex s' = 0)
               \<and> (key = keyUp \<and> isCommandMode s \<and> filteredCommands s \<noteq> [] \<longrightarrow>
                    selectedIndex s' =
                      (if selectedIndex s = 0 then int (length (filteredCommands s)) - 1
                       else selectedIndex s - 1))
               \<and> (key = keyDown \<and> isCommandMode s \<and> filteredCommands s \<noteq> [] \<longrightarrow>
                    selectedIndex s' =
                      (if selectedIndex s = int (length (filteredCommands s)) - 1 then 0
                       else selectedIndex s + 1)))"
  proof (rule impI)
    assume r: "resolved s = None"
    from inv_handleKey [OF s(2,3) r] obtain s' where
      s': "handleKey rv pool key s = Inr s'" "menuInv s'" by blast
    have b': "filteredCommands s' \<noteq> [] \<longrightarrow>
            0 \<le> selectedIndex s' \<and> selectedIndex s' < int (length (filteredCommands s'))"
      using s'(2) by (simp add: menuInv_def)
    have z: "key \<noteq> keyReturn \<and> key \<noteq> keyNewline \<and> input s' \<noteq> input s \<longrightarrow> selectedIndex s' = 0"
      using handleKey_selection_reset [OF s(2) s'(1)] by blast
    have u: "key = keyUp \<and> isCommandMode s \<and> filteredCommands s \<noteq> [] \<longrightarrow>
                    selectedIndex s' =
                      (if selectedIndex s = 0 then int (length (filteredCommands s)) - 1
                       else selectedIndex s - 1)"
      using handleKey_arrows(1) [OF s'(1)] b by (auto simp: onArrow_selection)
    have d: "key = keyDown \<and> isCommandMode s \<and> filteredCommands s \<noteq> [] \<longrightarrow>
                    selectedIndex s' =
                      (if selectedIndex s = int (length (filteredCommands s)) - 1 then 0
                       else selectedIndex s + 1)"
      using handleKey_arrows(2) [OF s'(1)] b by (auto simp: onArrow_selection)
    show "\<exists>s'. handleKey rv pool key s = Inr s'
               \<and> (filteredCommands s' \<noteq> [] \<longrightarrow>
                    0 \<le> selectedIndex s' \<and> selectedIndex s' < int (length (filteredCommands s')))
               \<and> (key \<noteq> keyReturn \<and> key \<noteq> keyNewline \<and> input s' \<noteq> input s \<longrightarrow>
                    selectedIndex s' = 0)
               \<and> (key = keyUp \<and> isCommandMode s \<and> filteredCommands s \<noteq> [] \<longrightarrow>
                    selectedIndex s' =
                      (if selectedIndex s = 0 then int (length (filteredCommands s)) - 1
                       else selectedIndex s - 1))
               \<and> (key = keyDown \<and> isCommandMode s \<and> filteredCommands s \<noteq> [] \<longrightarrow>
                    selectedIndex s' =
                      (if selectedIndex s = int (length (filteredCommands s)) - 1 then 0
                       else selectedIndex s + 1))"
      by (rule exI [of _ s'], intro conjI, rule s'(1), rule b', rule z, rule u, rule d)
  qed
  show ?thesis
    by (rule exI [of _ s], intro conjI, rule s(1), rule b, rule step)
qed

theorem selection_index_in_bounds_witness:
  "\<exists>s'. handleKey Part000 [] keyDown (projr (interactiveInput Part000 [] [''/'', ''h''])) = Inr s'
        \<and> selectedIndex s' = 1"
proof -
  let ?r = "interactiveInput Part000 [] [''/'', ''h'']"
  have a: "?r = Inr (projr ?r)" "resolved (projr ?r) = None" "isCommandMode (projr ?r)"
    "selectedIndex (projr ?r) = 0" "length (filteredCommands (projr ?r)) = 2"
    by code_simp+
  then have "filteredCommands (projr ?r) \<noteq> []" by auto
  then show ?thesis
    using selection_index_in_bounds [of Part000 "[]" "[''/'', ''h'']" keyDown] a by auto
qed

section \<open>What Enter resolves with\<close>

lemma toLowerChar_fixed: "(toLowerChar c = c) = (\<not> isUpperLetter c)"
  by (auto simp: toLowerChar_def isUpperLetter_def)

lemma toLowerCase_fixed: "(toLowerCase b = b) = list_all (\<lambda>c. \<not> isUpperLetter c) b"
  by (induction b) (simp_all add: toLowerCase_def toLowerChar_fixed)

lemma commands_ascii: "c \<in> set COMMANDS \<Longrightarrow> list_all isAsciiChar (name c)"
  by (auto simp: COMMANDS_def isAsciiChar_def)

lemma toUpperChar_ascii: "isAsciiChar c \<Longrightarrow> isAsciiChar (toUpperChar c)"
  unfolding toUpperChar_def isAsciiChar_def by (simp split: if_splits)

lemma toUpperCase_ascii: "list_all isAsciiChar str \<Longrightarrow> list_all isAsciiChar (toUpperCase str)"
  by (induction str) (simp_all add: toUpperCase_def toUpperChar_ascii)

lemma selection_ascii:
  assumes "menuInv s" and "hasSelection s"
  shows "list_all isAsciiChar (selectedName s)"
  unfolding selectedName_def using selectedName_command(1) [OF assms] by (rule commands_ascii)

lemma onTab_input:
  "input (onTab rv s) = (if hasSelection s then selectedName s else input s)"
  by (simp add: onTab_def Let_def selectedName_def)

lemma onBackspace_input:
  "onBackspace rv pool s = Inr s' \<Longrightarrow> input s' = input s \<or> input s' = butlast (input s)"
  by (auto simp: onBackspace_def Let_def split: if_splits sum.splits)

lemma onChar_input:
  "input (onChar rv pool char s) = ''/'' \<or> input (onChar rv pool char s) = input s @ char
   \<or> input (onChar rv pool char s) = input s @ toUpperCase char
   \<or> input (onChar rv pool char s) = input s"
  by (simp add: onChar_def Let_def)

lemma list_all_butlast: "list_all P xs \<Longrightarrow> list_all P (butlast xs)"
  by (induction xs) simp_all

lemma ascii_handleKey:
  assumes m: "menuInv s" and h: "handleKey rv pool key s = Inr s'"
    and k: "list_all isAsciiChar key" and a: "list_all isAsciiChar (input s)"
  shows "list_all isAsciiChar (input s')"
proof -
  let ?s = "resetCtrlC rv s"
  have m': "menuInv ?s" using m unfolding menuInv_def
    by (simp add: getFilteredCommands_cong [of ?s s])
  have sel: "list_all isAsciiChar (selectedName s)" if "hasSelection s"
    using selection_ascii [OF m', of] that by simp
  from h show ?thesis
  proof (cases rule: handleKey_cases)
    case Tab
    then show ?thesis using a sel by (simp add: onTab_input)
  next
    case Enter
    then show ?thesis using a sel onEnter_result [of rv ?s] by simp
  next
    case Backspace
    then have "input s' = input s \<or> input s' = butlast (input s)"
      using onBackspace_input [of rv pool ?s s'] by simp
    then show ?thesis using a list_all_butlast [of isAsciiChar "input s"] by auto
  next
    case Char
    then show ?thesis
      using a k onChar_input [of rv pool key ?s] toUpperCase_ascii [OF k]
      by (auto simp: isAsciiChar_def)
  qed (use a in auto)
qed

lemma ascii_run:
  "poolInv pool s \<Longrightarrow> menuInv s \<Longrightarrow> list_all isAsciiChar (input s)
   \<Longrightarrow> list_all (list_all isAsciiChar) keys \<Longrightarrow> run rv pool keys s = Inr s'
   \<Longrightarrow> list_all isAsciiChar (input s')"
proof (induction keys arbitrary: s)
  case Nil
  then show ?case by simp
next
  case (Cons key keys)
  show ?case
  proof (cases "resolved s = None")
    case False
    then show ?thesis using Cons.prems by simp
  next
    case True
    from inv_handleKey [OF Cons.prems(1,2) True] obtain s1 where
      s1: "handleKey rv pool key s = Inr s1" "poolInv pool s1" "menuInv s1" by blast
    have "list_all isAsciiChar (input s1)"
      using ascii_handleKey [OF Cons.prems(2) s1(1)] Cons.prems(3,4) by simp
    moreover have "run rv pool keys s1 = Inr s'" using Cons.prems(5) True s1(1) by simp
    ultimately show ?thesis using Cons.IH [OF s1(2,3)] Cons.prems(4) by simp
  qed
qed

lemma ascii_session:
  assumes "list_all (list_all isAsciiChar) keys" and "interactiveInput rv pool keys = Inr s"
  shows "list_all isAsciiChar (input s)"
proof -
  have "list_all isAsciiChar (input initialEditor)" by (simp add: initialEditor_def)
  then show ?thesis
    using ascii_run [of pool initialEditor keys rv s] inv_initial [of pool] assms
    by (simp add: interactiveInput_def)
qed

text \<open>
  C2, amended. For every sequence of ASCII keystrokes the editor has not resolved on, a
  final Enter (carriage return or line feed) resolves the editor, without an exception,
  with the final buffer put in lower case by \<^verbatim>\<open>toLowerCase\<close>. The final buffer is the
  selected command's name when the editor is in Command mode with the selection index
  inside the filtered list, and the typed buffer otherwise; it holds ASCII characters
  only. The string resolved with is the final buffer itself exactly when the buffer
  holds none of the letters A to Z.
\<close>

theorem enter_resolves_lowercased:
  assumes "list_all (list_all isAsciiChar) keys"
    and "interactiveInput rv pool keys = Inr s" and "resolved s = None"
    and "key = keyReturn \<or> key = keyNewline"
  shows "\<exists>s'. interactiveInput rv pool (keys @ [key]) = Inr s'
           \<and> input s' = (if hasSelection s then selectedName s else input s)
           \<and> list_all isAsciiChar (input s')
           \<and> resolved s' = Some (toLowerCase (input s'), isCommandMode s)
           \<and> (map_option fst (resolved s') = Some (input s'))
               = list_all (\<lambda>c. \<not> isUpperLetter c) (input s')"
proof -
  let ?s' = "onEnter rv (resetCtrlC rv s)"
  have "handleKey rv pool key s = Inr ?s'"
    using assms(4) by (auto simp: handleKey_def keys Let_def)
  then have r: "interactiveInput rv pool (keys @ [key]) = Inr ?s'"
    using assms(2,3) by (simp add: interactiveInput_def run_snoc)
  have "list_all isAsciiChar key" using assms(4) by (auto simp: keys isAsciiChar_def)
  then have "list_all (list_all isAsciiChar) (keys @ [key])" using assms(1) by simp
  from ascii_session [OF this r] have a: "list_all isAsciiChar (input ?s')" .
  show ?thesis
    using r a onEnter_result [of rv "resetCtrlC rv s"] toLowerCase_fixed [of "input ?s'"]
    by simp
qed

theorem enter_resolves_lowercased_witness:
  "\<exists>s'. interactiveInput Part000 [''C'', ''A'', ''T''] ([''C'', ''A'', ''T''] @ [keyReturn]) = Inr s'
        \<and> input s' = ''CAT'' \<and> resolved s' = Some (''cat'', False)"
proof -
  let ?s = "projr (interactiveInput Part000 [''C'', ''A'', ''T''] [''C'', ''A'', ''T''])"
  have k: "list_all (list_all isAsciiChar) [''C'', ''A'', ''T'']" by code_simp
  have a: "interactiveInput Part000 [''C'', ''A'', ''T''] [''C'', ''A'', ''T''] = Inr ?s"
    by code_simp
  have b: "resolved ?s = None" by code_simp
  have c: "keyReturn = keyReturn \<or> keyReturn = keyNewline" by simp
  have d: "\<not> hasSelection ?s" "input ?s = ''CAT''" "\<not> isCommandMode ?s"
    "toLowerCase ''CAT'' = ''cat''" by code_simp+
  show ?thesis using enter_resolves_lowercased [OF k a b c] d by auto
qed

section \<open>The menu on the screen\<close>

lemma written_append: "stdout s' = stdout s @ ts \<Longrightarrow> written s s' = ts"
  by (simp add: written_def)

lemma stdout_clearMenu:
  "stdout (clearMenu s) =
     stdout s @ (if renderedMenuLines s = 0 then []
                 else replicate (renderedMenuLines s) NewlineClearLine
                      @ [CursorUp (renderedMenuLines s)])"
  by (simp add: clearMenu_def clearBelow_def)

lemma stdout_renderMenu:
  "stdout (renderMenu s) =
     stdout s
     @ (if renderedMenuLines s = 0 then []
        else replicate (renderedMenuLines s) NewlineClearLine @ [CursorUp (renderedMenuLines s)])
     @ (if getFilteredCommands s = [] then []
        else menuLines (getFilteredCommands s) (selectedIndex s) 0
             @ [CursorUp (length (getFilteredCommands s)), InputLine (input s)])"
  by (simp add: renderMenu_def clearBelow_def Let_def)

lemma renderMenu_count:
  "renderedMenuLines (renderMenu s) = length (getFilteredCommands s)
   \<and> filteredCommands (renderMenu s) = getFilteredCommands s
   \<and> selectedIndex (renderMenu s) = selectedIndex s"
  by (simp add: renderMenu_def clearBelow_def Let_def)

lemma play_append:
  "play (xs @ ys) scr = (case play xs scr of None \<Rightarrow> None | Some scr' \<Rightarrow> play ys scr')"
  by (induction xs arbitrary: scr) (simp_all split: option.splits)

lemma play_erase_rows:
  "n \<le> length (below scr) \<Longrightarrow>
     play (replicate n NewlineClearLine) scr
       = Some (scr\<lparr>above := replicate n Blank @ above scr, below := drop n (below scr)\<rparr>)"
proof (induction n arbitrary: scr)
  case 0
  show ?case by simp
next
  case (Suc n)
  then obtain b bs where b: "below scr = b # bs" by (cases "below scr") auto
  let ?scr1 = "putRow Blank (lineFeed scr)"
  have s1: "above ?scr1 = Blank # above scr" "below ?scr1 = bs" "savedRow ?scr1 = savedRow scr"
    using b by (simp_all add: putRow_def lineFeed_def)
  have "n \<le> length (below ?scr1)" using Suc.prems b s1 by simp
  from Suc.IH [OF this] show ?case
    using s1 b by (simp add: replicate_append_same)
qed

lemma cursorUp_back:
  assumes "n < length (above scr)"
  shows "cursorUp n scr
         = scr\<lparr>above := drop n (above scr), below := rev (take n (above scr)) @ below scr\<rparr>"
  using assms by (simp add: cursorUp_def Let_def min_def)

lemma play_clear_tokens:
  assumes "above scr \<noteq> []" and "n \<le> length (below scr)"
  shows "play (if n = 0 then [] else replicate n NewlineClearLine @ [CursorUp n]) scr
         = Some (scr\<lparr>below := replicate n Blank @ drop n (below scr)\<rparr>)"
proof (cases "n = 0")
  case True
  then show ?thesis by simp
next
  case False
  let ?scr1 = "scr\<lparr>above := replicate n Blank @ above scr, below := drop n (below scr)\<rparr>"
  have "n < length (above ?scr1)" using assms(1) by (cases "above scr") simp_all
  from cursorUp_back [OF this] have "cursorUp n ?scr1
      = scr\<lparr>above := above scr, below := replicate n Blank @ drop n (below scr)\<rparr>"
    by simp
  then show ?thesis
    using False play_erase_rows [OF assms(2)] by (simp add: play_append)
qed

lemma play_draw_rows:
  assumes "above scr \<noteq> []" and "length cmds < length (above scr) + length (below scr)"
  shows "play (menuLines cmds sel i) scr
         = Some (scr\<lparr>above := rev (entryCells cmds sel i)
                            @ take (length (above scr) - (length cmds - length (below scr)))
                                (above scr),
                        below := drop (length cmds) (below scr)\<rparr>)"
  using assms
proof (induction cmds arbitrary: scr i)
  case Nil
  show ?case by simp
next
  case (Cons cmd cmds)
  let ?e = "Entry (int i = sel) cmd"
  let ?scr1 = "putRow ?e (putRow Blank (lineFeed scr))"
  have step: "play (menuLines (cmd # cmds) sel i) scr = play (menuLines cmds sel (Suc i)) ?scr1"
    by simp
  show ?case
  proof (cases "below scr")
    case (Cons b bs)
    have s1: "above ?scr1 = ?e # above scr" "below ?scr1 = bs"
      using Cons by (simp_all add: putRow_def lineFeed_def)
    have "above ?scr1 \<noteq> []" "length cmds < length (above ?scr1) + length (below ?scr1)"
      using Cons.prems Cons s1 by simp_all
    from Cons.IH [OF this, of "Suc i"] have
      "play (menuLines cmds sel (Suc i)) ?scr1
       = Some (?scr1\<lparr>above := rev (entryCells cmds sel (Suc i))
                            @ take (Suc (length (above scr)) - (length cmds - length bs))
                                (?e # above scr),
                        below := drop (length cmds) bs\<rparr>)"
      using s1 by simp
    moreover have "take (Suc (length (above scr)) - (length cmds - length bs)) (?e # above scr)
                   = ?e # take (length (above scr) - (length cmds - length bs)) (above scr)"
      using Cons.prems(2) Cons by (simp add: Suc_diff_le)
    ultimately show ?thesis
      unfolding step using Cons by (simp add: putRow_def lineFeed_def)
  next
    case Nil
    have s1: "above ?scr1 = ?e # butlast (above scr)" "below ?scr1 = []"
      using Nil by (simp_all add: putRow_def lineFeed_def)
    have "above ?scr1 \<noteq> []" "length cmds < length (above ?scr1) + length (below ?scr1)"
      using Cons.prems Nil s1 by simp_all
    from Cons.IH [OF this, of "Suc i"] have
      "play (menuLines cmds sel (Suc i)) ?scr1
       = Some (?scr1\<lparr>above := rev (entryCells cmds sel (Suc i))
                            @ take (length (above scr) - length cmds) (?e # butlast (above scr)),
                        below := []\<rparr>)"
      using s1 Cons.prems(1) by simp
    moreover have "take (length (above scr) - length cmds) (?e # butlast (above scr))
                   = ?e # take (length (above scr) - Suc (length cmds)) (above scr)"
    proof -
      obtain j where j: "length (above scr) - length cmds = Suc j" "j < length (above scr)"
        "j = length (above scr) - Suc (length cmds)"
        using Cons.prems(2) Nil by (cases "length (above scr) - length cmds") auto
      then show ?thesis by (simp add: take_butlast)
    qed
    ultimately show ?thesis
      unfolding step using Nil by (simp add: putRow_def lineFeed_def)
  qed
qed

lemma entryCells_props:
  "length (entryCells cmds sel i) = length cmds \<and> list_all isEntry (entryCells cmds sel i)"
  by (induction cmds arbitrary: i) simp_all

lemma menuShown_entryRows: "menuShown n scr \<Longrightarrow> entryRows scr = n"
proof -
  assume a: "menuShown n scr"
  have f0: "filter isEntry xs = []" if "list_all (\<lambda>c. \<not> isEntry c) xs" for xs
    using that by (induction xs) simp_all
  have f1: "filter isEntry xs = xs" if "list_all isEntry xs" for xs
    using that by (induction xs) simp_all
  have "filter isEntry (below scr)
        = filter isEntry (take n (below scr)) @ filter isEntry (drop n (below scr))"
    by (metis append_take_drop_id filter_append)
  then have "length (filter isEntry (below scr)) = n"
    using a by (simp add: menuShown_def f0 f1)
  then show ?thesis using a by (simp add: entryRows_def screenRows_def menuShown_def f0 list_all_iff)
qed

lemma clearMenu_screen:
  assumes "menuShown (renderedMenuLines s) scr"
  shows "play (written s (clearMenu s)) scr
           = Some (scr\<lparr>below := replicate (renderedMenuLines s) Blank
                                  @ drop (renderedMenuLines s) (below scr)\<rparr>)"
    and "menuShown 0 (scr\<lparr>below := replicate (renderedMenuLines s) Blank
                                  @ drop (renderedMenuLines s) (below scr)\<rparr>)"
proof -
  have a: "above scr \<noteq> []" "renderedMenuLines s \<le> length (below scr)"
    using assms by (simp_all add: menuShown_def)
  show "play (written s (clearMenu s)) scr
           = Some (scr\<lparr>below := replicate (renderedMenuLines s) Blank
                                  @ drop (renderedMenuLines s) (below scr)\<rparr>)"
    unfolding written_append [OF stdout_clearMenu] by (rule play_clear_tokens [OF a])
  show "menuShown 0 (scr\<lparr>below := replicate (renderedMenuLines s) Blank
                                  @ drop (renderedMenuLines s) (below scr)\<rparr>)"
    using assms by (auto simp: menuShown_def list_all_iff)
qed

lemma renderMenu_screen:
  assumes sh: "menuShown (renderedMenuLines c) scr"
    and fit: "length (getFilteredCommands c) < length (screenRows scr)"
  shows "\<exists>scr1. play (written c (renderMenu c)) scr = Some scr1
           \<and> menuShown (length (getFilteredCommands c)) scr1
           \<and> take (length (getFilteredCommands c)) (below scr1)
               = entryCells (getFilteredCommands c) (selectedIndex c) 0"
proof -
  let ?m = "renderedMenuLines c"
  let ?fc = "getFilteredCommands c"
  let ?n = "length ?fc"
  let ?cells = "entryCells ?fc (selectedIndex c) 0"
  let ?scrC = "scr\<lparr>below := replicate ?m Blank @ drop ?m (below scr)\<rparr>"
  have a: "above scr \<noteq> []" "?m \<le> length (below scr)"
    and na: "\<forall>x \<in> set (above scr). \<not> isEntry x"
    and nb: "\<forall>x \<in> set (drop ?m (below scr)). \<not> isEntry x"
    using sh by (simp_all add: menuShown_def list_all_iff)
  have clear: "play (if ?m = 0 then [] else replicate ?m NewlineClearLine @ [CursorUp ?m]) scr
               = Some ?scrC"
    by (rule play_clear_tokens [OF a])
  have shC: "menuShown 0 ?scrC" using sh by (auto simp: menuShown_def list_all_iff)
  have lenC: "length (below ?scrC) = length (below scr)" using a(2) by simp
  show ?thesis
  proof (cases "?fc = []")
    case True
    then have "play (written c (renderMenu c)) scr = Some ?scrC"
      unfolding written_append [OF stdout_renderMenu] using clear by (simp add: play_append)
    then show ?thesis using True shC by simp
  next
    case False
    let ?k = "?n - length (below scr)"
    let ?A = "take (length (above scr) - ?k) (above scr)"
    let ?scrD = "?scrC\<lparr>above := rev ?cells @ ?A, below := drop ?n (below ?scrC)\<rparr>"
    let ?scr1 = "?scrC\<lparr>above := InputRow (input c) # tl ?A,
                        below := ?cells @ drop ?n (below ?scrC)\<rparr>"
    have fitC: "?n < length (above ?scrC) + length (below ?scrC)"
      using fit lenC by (simp add: screenRows_def)
    have draw: "play (menuLines ?fc (selectedIndex c) 0) ?scrC = Some ?scrD"
      using play_draw_rows [of ?scrC ?fc "selectedIndex c" 0] a(1) fitC lenC by simp
    have lc: "length ?cells = ?n" using entryCells_props [of ?fc] by simp
    have posA: "0 < length (above scr)" using a(1) by simp
    have fit': "?n < length (above scr) + length (below scr)"
      using fit by (simp add: screenRows_def)
    have "?k < length (above scr)" using posA fit' by linarith
    then have Ane: "?A \<noteq> []" using a(1) by simp
    have "?n < length (above ?scrD)" using lc Ane by (cases ?A) simp_all
    from cursorUp_back [OF this]
    have up: "cursorUp ?n ?scrD = ?scrC\<lparr>above := ?A, below := ?cells @ drop ?n (below ?scrC)\<rparr>"
      using lc by simp
    have "play (menuLines ?fc (selectedIndex c) 0 @ [CursorUp ?n, InputLine (input c)]) ?scrC
          = Some ?scr1"
      using draw up by (simp add: play_append putRow_def)
    then have p: "play (written c (renderMenu c)) scr = Some ?scr1"
      unfolding written_append [OF stdout_renderMenu] using clear False
      by (simp add: play_append)
    have "set (tl ?A) \<subseteq> set (above scr)"
      by (meson list.set_sel(2) set_take_subset subset_code(1) Ane)
    then have na1: "\<forall>x \<in> set (tl ?A). \<not> isEntry x" using na by blast
    have "set (drop ?n (below ?scrC)) \<subseteq> set (below ?scrC)" by (rule set_drop_subset)
    then have nb1: "\<forall>x \<in> set (drop ?n (below ?scrC)). \<not> isEntry x"
      using nb by auto
    have "menuShown ?n ?scr1"
      using lc na1 nb1 entryCells_props [of ?fc "selectedIndex c" 0]
      by (simp add: menuShown_def list_all_iff)
    moreover have "take ?n (below ?scr1) = ?cells" using lc by simp
    ultimately show ?thesis using p by blast
  qed
qed

text \<open>
  On every screen that shows the recorded number of menu rows under the cursor and is
  taller than the filtered list, \<^verbatim>\<open>renderMenu\<close> of part\_000 leaves exactly the
  filtered list's entries on the rows under the cursor, as many as it records; a
  \<^verbatim>\<open>clearMenu\<close> after it blanks exactly those rows, leaves the cursor on its row, and
  records 0.
\<close>

lemma menu_rows_exact_part000:
  assumes "menuShown (renderedMenuLines c) scr"
    and "length (getFilteredCommands c) < length (screenRows scr)"
  shows "\<exists>scr1 scr2.
      play (written c (renderMenu c)) scr = Some scr1
      \<and> renderedMenuLines (renderMenu c) = length (filteredCommands (renderMenu c))
      \<and> take (renderedMenuLines (renderMenu c)) (below scr1)
          = entryCells (filteredCommands (renderMenu c)) (selectedIndex c) 0
      \<and> menuShown (renderedMenuLines (renderMenu c)) scr1
      \<and> entryRows scr1 = renderedMenuLines (renderMenu c)
      \<and> play (written (renderMenu c) (clearMenu (renderMenu c))) scr1 = Some scr2
      \<and> above scr2 = above scr1
      \<and> below scr2 = replicate (renderedMenuLines (renderMenu c)) Blank
                        @ drop (renderedMenuLines (renderMenu c)) (below scr1)
      \<and> entryRows scr2 = 0
      \<and> renderedMenuLines (clearMenu (renderMenu c)) = 0"
proof -
  let ?s1 = "renderMenu c"
  have cnt: "renderedMenuLines ?s1 = length (getFilteredCommands c)"
    "filteredCommands ?s1 = getFilteredCommands c"
    using renderMenu_count [of c] by simp_all
  from renderMenu_screen [OF assms] obtain scr1 where
    scr1: "play (written c ?s1) scr = Some scr1"
    "menuShown (renderedMenuLines ?s1) scr1"
    "take (renderedMenuLines ?s1) (below scr1)
       = entryCells (filteredCommands ?s1) (selectedIndex c) 0"
    unfolding cnt by blast
  let ?scr2 = "scr1\<lparr>below := replicate (renderedMenuLines ?s1) Blank
                              @ drop (renderedMenuLines ?s1) (below scr1)\<rparr>"
  have scr2: "play (written ?s1 (clearMenu ?s1)) scr1 = Some ?scr2" "menuShown 0 ?scr2"
    using clearMenu_screen [OF scr1(2)] by simp_all
  have z: "renderedMenuLines (clearMenu ?s1) = 0" by (simp add: clearMenu_def)
  show ?thesis
    using scr1 scr2 z cnt(1) cnt(2) menuShown_entryRows [OF scr1(2)] menuShown_entryRows [OF scr2(2)]
    by (intro exI [of _ scr1] exI [of _ ?scr2]) simp
qed

text \<open>
  C6. On a terminal of 24 rows with the input line on the row before the last, the key
  \<open>/\<close> makes index.ts draw its five entries and record 5, but its cursor comes back
  to row 22, which now holds the entry \<open>/quit\<close>, since the screen scrolled under the
  stored position. \<^verbatim>\<open>clearMenu\<close> then records 0 and erases one row: four entries stay
  on the screen. The keys \<open>/\<close> and backspace leave three entries and two input lines.
  part\_000, on the same terminal and key, has its cursor on the input line (row 18)
  after drawing, and no entry is left after \<^verbatim>\<open>clearMenu\<close>.
\<close>

theorem index_ts_menu_left_on_screen:
  "renderedMenuLines (projr (handleKey IndexTs [] ''/'' initialEditor)) = 5
   \<and> play (written initialEditor (projr (handleKey IndexTs [] ''/'' initialEditor))) screen24
       \<noteq> None
   \<and> screenRows (the
        (play (written initialEditor (projr (handleKey IndexTs [] ''/'' initialEditor))) screen24))
       = replicate 18 Other @ InputRow ''/'' # entryCells COMMANDS 0 0
   \<and> cursorRow (the
        (play (written initialEditor (projr (handleKey IndexTs [] ''/'' initialEditor))) screen24))
       = 22
   \<and> renderedMenuLines (clearMenu_index (projr (handleKey IndexTs [] ''/'' initialEditor))) = 0
   \<and> play (written initialEditor
              (clearMenu_index (projr (handleKey IndexTs [] ''/'' initialEditor)))) screen24
       \<noteq> None
   \<and> entryRows (the
        (play (written initialEditor
                 (clearMenu_index (projr (handleKey IndexTs [] ''/'' initialEditor)))) screen24))
       = 4
   \<and> screenRows (the
        (play (written initialEditor
                 (projr (interactiveInput IndexTs [] [''/'', keyDelete]))) screen24))
       = replicate 18 Other @ InputRow ''/'' # take 3 (entryCells COMMANDS 0 0)
         @ [InputRow [], Blank]
   \<and> cursorRow (the
        (play (written initialEditor (projr (handleKey Part000 [] ''/'' initialEditor))) screen24))
       = 18
   \<and> entryRows (the
        (play (written initialEditor (projr (handleKey Part000 [] ''/'' initialEditor))) screen24))
       = 5
   \<and> play (written initialEditor
              (clearMenu (projr (handleKey Part000 [] ''/'' initialEditor)))) screen24
       \<noteq> None
   \<and> screenRows (the
        (play (written initialEditor
                 (clearMenu (projr (handleKey Part000 [] ''/'' initialEditor)))) screen24))
       = replicate 18 Other @ InputRow ''/'' # replicate 5 Blank"
  by code_simp

theorem index_ts_menu_left_on_screen_witness:
  "entryRows (the
        (play (written initialEditor
                 (clearMenu_index (projr (handleKey IndexTs [] ''/'' initialEditor)))) screen24))
       \<noteq> 0"
  using index_ts_menu_left_on_screen by simp

end
